theory Spec2Isabelle
  imports Complex_Main "HOL-Library.Multiset" "HOL-Library.List_Lexorder"
begin

section \<open>Strings, errors and settings\<close>

text \<open>
  A Python \<open>str\<close> is a sequence of Unicode code points, so a string is a list of
  naturals here and \<open>length\<close> is Python's \<open>len\<close>. \<open>py\<close> turns an ASCII literal into
  such a string. Lists of code points are ordered lexicographically, which is the order
  Python and pandas sort strings in.
\<close>

type_synonym pystr = "nat list"

definition py :: "string \<Rightarrow> pystr" where
  "py s = map of_char s"

text \<open>The exceptions of the modelled code paths.\<close>

datatype error = ValueError | KeyError

datatype source_type = Raw | Text | Tokenized

text \<open>
  \<open>s.strip(chars)\<close>: the characters of \<open>chars\<close> are removed from both ends of \<open>s\<close>.
\<close>

definition strip_chars :: "'a list \<Rightarrow> 'a list \<Rightarrow> 'a list" where
  "strip_chars cs s =
     rev (dropWhile (\<lambda>c. c \<in> set cs) (rev (dropWhile (\<lambda>c. c \<in> set cs) s)))"

text \<open>\<open>linestrip_pattern\<close>: space, slash, hyphen, en dash (U+2013), newline, tab, double quote.\<close>

definition linestrip_pattern :: pystr where
  "linestrip_pattern = [32, 47, 45, 8211, 10, 9, 34]"

section \<open>Chunk reader\<close>

text \<open>
  \<open>batched\<close>: \<open>itertools.islice(it, batch_size)\<close> takes the next \<open>batch_size\<close> items; the
  generator stops at the first empty batch. \<open>islice\<close> raises \<open>ValueError\<close> for a negative
  stop. The loop of the generator is \<open>batches\<close>, over the items not yet consumed.
\<close>

function batches :: "'a list \<Rightarrow> nat \<Rightarrow> 'a list list" where
  "batches xs n =
     (let batch = take n xs
      in if batch = [] then [] else batch # batches (drop n xs) n)"
  by pat_completeness auto
termination
  by (relation "measure (\<lambda>(xs, n). length xs)") auto

declare batches.simps [simp del]

definition batched :: "'a list \<Rightarrow> int \<Rightarrow> error + 'a list list" where
  "batched iterable batch_size =
     (if batch_size < 0 then Inl ValueError
      else Inr (batches iterable (nat batch_size)))"

text \<open>\<open>chunked_reader\<close>: the file is the list of its lines.\<close>

definition chunked_reader :: "'a list \<Rightarrow> int \<Rightarrow> error + 'a list list" where
  "chunked_reader file lines_per_chunk = batched file lines_per_chunk"

section \<open>Frequency aggregation\<close>

text \<open>
  A \<open>Counter\<close> is a dict: its keys are unique and keep their insertion order, which
  \<open>most_common\<close> later uses to order equal counts. It is an association list here.
  Counts are Python integers that only grow from zero, so they are naturals.
\<close>

type_synonym 'k counter = "('k \<times> nat) list"

text \<open>One step of \<open>Counter.update\<close>: \<open>self[elem] = self.get(elem, 0) + 1\<close>.\<close>

fun counter_incr :: "'k \<Rightarrow> 'k counter \<Rightarrow> 'k counter" where
  "counter_incr elem [] = [(elem, 1)]"
| "counter_incr elem ((k, v) # d) =
     (if k = elem then (k, v + 1) # d else (k, v) # counter_incr elem d)"

fun counter_update :: "'k counter \<Rightarrow> 'k list \<Rightarrow> 'k counter" where
  "counter_update d [] = d"
| "counter_update d (elem # iterable) = counter_update (counter_incr elem d) iterable"

text \<open>\<open>d.pop(key, None)\<close>: the key is removed when present, nothing happens otherwise.\<close>

definition pop :: "'k \<Rightarrow> 'k counter \<Rightarrow> 'k counter" where
  "pop key d = filter (\<lambda>(k, v). k \<noteq> key) d"

text \<open>
  The key a line is counted under in \<open>parsedfile_to_top_sentences\<close>: the line itself for
  raw data, the line stripped of \<open>linestrip_pattern\<close> otherwise.
\<close>

definition sentence_keys :: "source_type \<Rightarrow> pystr list \<Rightarrow> pystr list" where
  "sentence_keys source_data_type lines =
     (if source_data_type \<noteq> Raw then map (strip_chars linestrip_pattern) lines else lines)"

text \<open>The loop \<open>for lines in chunked_reader(...): d.update(f(lines))\<close>.\<close>

fun count_chunks :: "('a list \<Rightarrow> 'k list) \<Rightarrow> 'k counter \<Rightarrow> 'a list list \<Rightarrow> 'k counter" where
  "count_chunks f d [] = d"
| "count_chunks f d (lines # chunks) = count_chunks f (counter_update d (f lines)) chunks"

text \<open>
  Counting the sentences of a corpus file and removing the empty entry. The keys are
  strings, so \<open>d.pop(None, None)\<close> finds nothing to remove.
\<close>

definition count_sentences :: "source_type \<Rightarrow> int \<Rightarrow> pystr list \<Rightarrow> error + pystr counter" where
  "count_sentences source_data_type lines_per_chunk parsedfile =
     (case chunked_reader parsedfile lines_per_chunk of
        Inl e \<Rightarrow> Inl e
      | Inr chunks \<Rightarrow> Inr (pop [] (count_chunks (sentence_keys source_data_type) [] chunks)))"

section \<open>Noise filter\<close>

text \<open>
  The regular expressions are matched by \<open>re.search\<close> on Python strings, where \<open>\w\<close> is
  an underscore or a character that \<open>str.isalnum\<close> accepts. On ASCII these are the letters
  and digits; beyond ASCII the Unicode database decides, which is the parameter \<open>U\<close>.
\<close>

definition ascii_digit :: "nat \<Rightarrow> bool" where
  "ascii_digit c = (48 \<le> c \<and> c \<le> 57)"

definition ascii_letter :: "nat \<Rightarrow> bool" where
  "ascii_letter c = ((65 \<le> c \<and> c \<le> 90) \<or> (97 \<le> c \<and> c \<le> 122))"

definition word_char :: "(nat \<Rightarrow> bool) \<Rightarrow> nat \<Rightarrow> bool" where
  "word_char U c =
     (c = 95 \<or> (if c < 128 then ascii_digit c \<or> ascii_letter c else U c))"

text \<open>The character class \<open>[ _\W0-9]\<close>.\<close>

definition punct_num_class :: "(nat \<Rightarrow> bool) \<Rightarrow> nat \<Rightarrow> bool" where
  "punct_num_class U c = (c = 32 \<or> c = 95 \<or> \<not> word_char U c \<or> ascii_digit c)"

text \<open>
  \<open>$\<close> matches at the end of the string and just before a newline that ends the string;
  \<open>at_end rest\<close> says so of the rest of the string after the position.
\<close>

definition at_end :: "pystr \<Rightarrow> bool" where
  "at_end rest = (rest = [] \<or> rest = [10])"

text \<open>
  \<open>^[ _\W0-9]+$\<close>: some non-empty prefix of characters of the class ends where \<open>$\<close>
  matches.
\<close>

definition punctuation_and_numbers_regex :: "(nat \<Rightarrow> bool) \<Rightarrow> pystr \<Rightarrow> bool" where
  "punctuation_and_numbers_regex U k =
     list_ex (\<lambda>n. at_end (drop n k))
       [1 ..< Suc (length (takeWhile (punct_num_class U) k))]"

text \<open>\<open>^[(\[{]\<close>: the first character is an opening bracket.\<close>

definition parenthesis_start_regex :: "pystr \<Rightarrow> bool" where
  "parenthesis_start_regex k = (case k of [] \<Rightarrow> False | c # _ \<Rightarrow> c \<in> {40, 91, 123})"

text \<open>\<open>:$\<close>: a colon at a position after which \<open>$\<close> matches.\<close>

definition colon_end_regex :: "pystr \<Rightarrow> bool" where
  "colon_end_regex k =
     list_ex (\<lambda>i. k ! i = 58 \<and> at_end (drop (Suc i) k)) [0 ..< length k]"

text \<open>\<open>[a-zA-Z\<agrave>-\<udieresis>\<Agrave>-\<Udieresis>]\<close>: a character of one of the four ranges anywhere.\<close>

definition latin_char :: "nat \<Rightarrow> bool" where
  "latin_char c =
     ((97 \<le> c \<and> c \<le> 122) \<or> (65 \<le> c \<and> c \<le> 90)
      \<or> (224 \<le> c \<and> c \<le> 252) \<or> (192 \<le> c \<and> c \<le> 220))"

definition latin_regex :: "pystr \<Rightarrow> bool" where
  "latin_regex k = list_ex latin_char k"

definition non_latin_langs :: "string list" where
  "non_latin_langs =
     [''ar'', ''bg'', ''bn'', ''el'', ''fa'', ''he'', ''hi'', ''hy'', ''ja'', ''ka'',
      ''kk'', ''ko'', ''mk'', ''ml'', ''ru'', ''si'', ''ta'', ''te'', ''th'', ''uk'',
      ''ur'', ''ze_zh'', ''zh_cn'', ''zh_tw'']"

text \<open>
  \<open>re.search(pattern, k)\<close> for the pattern joined with \<open>|\<close>: one of the alternatives
  matches somewhere. The sentence pipeline joins three patterns, the word pipeline has
  the first only; both add the Latin pattern for the languages of \<open>non_latin_langs\<close>.
\<close>

definition sentence_pattern :: "(nat \<Rightarrow> bool) \<Rightarrow> string \<Rightarrow> pystr \<Rightarrow> bool" where
  "sentence_pattern U langcode k =
     (punctuation_and_numbers_regex U k \<or> parenthesis_start_regex k \<or> colon_end_regex k
      \<or> (langcode \<in> set non_latin_langs \<and> latin_regex k))"

definition word_pattern :: "(nat \<Rightarrow> bool) \<Rightarrow> string \<Rightarrow> pystr \<Rightarrow> bool" where
  "word_pattern U langcode k =
     (punctuation_and_numbers_regex U k
      \<or> (langcode \<in> set non_latin_langs \<and> latin_regex k))"

text \<open>\<open>Counter({k:v for (k, v) in d.items() if not re.search(pattern, k)})\<close>.\<close>

definition filter_sentences :: "(nat \<Rightarrow> bool) \<Rightarrow> string \<Rightarrow> pystr counter \<Rightarrow> pystr counter" where
  "filter_sentences U langcode d = filter (\<lambda>(k, v). \<not> sentence_pattern U langcode k) d"

definition filter_words :: "(nat \<Rightarrow> bool) \<Rightarrow> string \<Rightarrow> pystr counter \<Rightarrow> pystr counter" where
  "filter_words U langcode d = filter (\<lambda>(k, v). \<not> word_pattern U langcode k) d"

section \<open>Threshold, key stripping and ranking\<close>

text \<open>
  \<open>if not (min_count == None or min_count == 0): d = Counter({key:value for key, value in
  d.items() if value >= min_count})\<close>.
\<close>

definition remove_less_common :: "int option \<Rightarrow> 'k counter \<Rightarrow> 'k counter" where
  "remove_less_common min_count d =
     (case min_count of
        None \<Rightarrow> d
      | Some m \<Rightarrow> if m = 0 then d else filter (\<lambda>(key, value). int value \<ge> m) d)"

text \<open>
  \<open>k.strip()\<close> removes the characters that \<open>str.isspace\<close> accepts from both ends. In a
  dict comprehension a key produced twice keeps its first position and its last value.
\<close>

definition py_isspace :: "nat \<Rightarrow> bool" where
  "py_isspace c =
     ((9 \<le> c \<and> c \<le> 13) \<or> (28 \<le> c \<and> c \<le> 32) \<or> c = 133 \<or> c = 160 \<or> c = 5760
      \<or> (8192 \<le> c \<and> c \<le> 8202) \<or> c = 8232 \<or> c = 8233 \<or> c = 8239 \<or> c = 8287
      \<or> c = 12288)"

definition str_strip :: "pystr \<Rightarrow> pystr" where
  "str_strip s = rev (dropWhile py_isspace (rev (dropWhile py_isspace s)))"

fun dict_set :: "'k \<Rightarrow> 'v \<Rightarrow> ('k \<times> 'v) list \<Rightarrow> ('k \<times> 'v) list" where
  "dict_set key val [] = [(key, val)]"
| "dict_set key val ((k, v) # d) =
     (if k = key then (k, val) # d else (k, v) # dict_set key val d)"

definition strip_keys :: "pystr counter \<Rightarrow> pystr counter" where
  "strip_keys d = foldl (\<lambda>acc (k, v). dict_set (str_strip k) v acc) [] d"

text \<open>
  A data frame with a text column and a count column is the list of its rows.
  \<open>Counter.most_common()\<close> is Python's \<open>sorted(..., reverse=True)\<close>, which is stable: the
  rows come out in descending count and rows with equal counts stay in their order.
  \<open>sort_values(by=[count], ascending=False)\<close> sorts with the default \<open>kind='quicksort'\<close> of
  pandas, which gives the rows in descending count as well but promises nothing about
  the order of rows with equal counts. \<open>sort_values\<close> is the sort among these that keeps
  equal counts in their order (reverse, stable ascending sort, reverse); the pipelines
  below are written with it, and nothing that is stated of them rests on the order of
  equal counts. What depends on that order is stated for a sort function \<open>srt\<close> that is only
  known to be a \<open>descending_sort\<close>, the contract of \<open>sort_values\<close> under every \<open>kind\<close>;
  \<open>sort_values_ties_reversed\<close> is another such sort, a stable ascending sort read
  backwards.
\<close>

definition sort_values :: "('k \<times> nat) list \<Rightarrow> ('k \<times> nat) list" where
  "sort_values df = rev (sort_key snd (rev df))"

definition most_common :: "'k counter \<Rightarrow> ('k \<times> nat) list" where
  "most_common d = rev (sort_key snd (rev d))"

definition descending_sort :: "(('k \<times> nat) list \<Rightarrow> ('k \<times> nat) list) \<Rightarrow> bool" where
  "descending_sort srt \<longleftrightarrow>
     (\<forall>df. mset (srt df) = mset df \<and> sorted_wrt (\<ge>) (map snd (srt df)))"


section \<open>Variant collapsing\<close>

text \<open>
  \<open>groupby(key)\<close> orders the groups by ascending key and keeps the rows of a group in
  the order of the frame. \<open>agg({text:'first', count:'sum'})\<close> gives the text of the first
  row of a group and the sum of its counts; a group always has a row.
\<close>

definition group_keys :: "('k \<Rightarrow> 'g::linorder) \<Rightarrow> ('k \<times> nat) list \<Rightarrow> 'g list" where
  "group_keys key df = sort (remdups (map (\<lambda>r. key (fst r)) df))"

definition group_rows :: "('k \<Rightarrow> 'g) \<Rightarrow> ('k \<times> nat) list \<Rightarrow> 'g \<Rightarrow> ('k \<times> nat) list" where
  "group_rows key df g = filter (\<lambda>r. key (fst r) = g) df"

definition agg_first_sum :: "('k \<times> nat) list \<Rightarrow> 'k \<times> nat" where
  "agg_first_sum grp = (fst (hd grp), sum_list (map snd grp))"

text \<open>
  The chain \<open>sort_values \<rightarrow> assign \<rightarrow> groupby \<rightarrow> agg \<rightarrow> drop \<rightarrow> sort_values \<rightarrow> reset_index\<close>
  that \<open>collapse_if_only_ending_differently\<close> and the first branch of \<open>collapse_case\<close>
  share, for the grouping column computed by \<open>key\<close>.
\<close>

definition collapse_first_sum :: "('k \<Rightarrow> 'g::linorder) \<Rightarrow> ('k \<times> nat) list \<Rightarrow> ('k \<times> nat) list" where
  "collapse_first_sum key df =
     (let sorted_df = sort_values df
      in sort_values
           (map (\<lambda>g. agg_first_sum (group_rows key sorted_df g)) (group_keys key sorted_df)))"

text \<open>The characters of \<open>" .?!\<questiondown>\<exclamdown>"\<close>.\<close>

definition ending_chars :: pystr where
  "ending_chars = [32, 46, 63, 33, 191, 161]"

definition collapse_if_only_ending_differently :: "(pystr \<times> nat) list \<Rightarrow> (pystr \<times> nat) list" where
  "collapse_if_only_ending_differently df = collapse_first_sum (strip_chars ending_chars) df"



text \<open>
  \<open>wordcase_by_cutoff\<close> on the rows of one group. The shares are quotients of counts;
  they are exact rationals here, and so is the cutoff. \<open>idxmax\<close> gives the position of the
  first maximum (of the first \<open>True\<close> for a Boolean column). When the counts of a group
  add up to zero every share is undefined, no comparison holds and the lookup of the
  maximum fails.
\<close>

definition share_of :: "nat \<Rightarrow> nat \<Rightarrow> rat" where
  "share_of c group_count = of_nat c / of_nat group_count"

definition idxmax_bool :: "bool list \<Rightarrow> nat" where
  "idxmax_bool bs = length (takeWhile Not bs)"

definition idxmax :: "rat list \<Rightarrow> nat" where
  "idxmax xs = length (takeWhile (\<lambda>x. x \<noteq> Max (set xs)) xs)"

definition wordcase_by_cutoff ::
  "(pystr \<Rightarrow> pystr) \<Rightarrow> rat \<Rightarrow> (pystr \<times> nat) list \<Rightarrow> error + (pystr \<times> nat)" where
  "wordcase_by_cutoff lower cutoff df =
     (let group_count = sum_list (map snd df);
          share = map (\<lambda>(w, c). share_of c group_count) df;
          is_low = map (\<lambda>(w, c). w = lower w) df;
          low_and_big = map (\<lambda>(l, s). l \<and> group_count \<noteq> 0 \<and> s > cutoff) (zip is_low share)
      in if list_ex id low_and_big
         then Inr (lower (fst (df ! idxmax_bool low_and_big)), group_count)
         else if group_count = 0 then Inl KeyError
         else Inr (fst (df ! idxmax share), group_count))"

text \<open>\<open>groupby(...).apply(f)\<close>: the first group on which \<open>f\<close> raises ends the run.\<close>

fun apply_groups :: "('a \<Rightarrow> error + 'b) \<Rightarrow> 'a list \<Rightarrow> error + 'b list" where
  "apply_groups f [] = Inr []"
| "apply_groups f (g # gs) =
     (case f g of
        Inl e \<Rightarrow> Inl e
      | Inr r \<Rightarrow> (case apply_groups f gs of Inl e \<Rightarrow> Inl e | Inr rs \<Rightarrow> Inr (r # rs)))"

text \<open>
  \<open>collapse_case\<close>; \<open>lower\<close> is \<open>str.lower\<close>, which the Unicode database defines.
\<close>

definition collapse_case ::
  "(pystr \<Rightarrow> pystr) \<Rightarrow> (pystr \<times> nat) list \<Rightarrow> rat \<Rightarrow> error + (pystr \<times> nat) list" where
  "collapse_case lower df cutoff =
     (if cutoff = 1 / 2 then Inr (collapse_first_sum lower df)
      else case apply_groups (wordcase_by_cutoff lower cutoff)
                  (map (group_rows lower df) (group_keys lower df)) of
             Inl e \<Rightarrow> Inl e
           | Inr rows \<Rightarrow> Inr (sort_values rows))"

text \<open>\<open>str.lower\<close> on ASCII text.\<close>

definition ascii_lower :: "pystr \<Rightarrow> pystr" where
  "ascii_lower s = map (\<lambda>c. if 65 \<le> c \<and> c \<le> 90 then c + 32 else c) s"

section \<open>The two pipelines\<close>

text \<open>
  The settings of a run, the exclusion table read by \<open>extra_sentences_to_exclude()\<close>
  (one column of sentences per language code), and the part of the file system the
  pipelines write: the directories they create, the ranked tables by path, and the two
  one-row summary tables with a column per language. A summary file that does not exist
  reads as the empty dict.
\<close>

record settings =
  min_count :: "int option"
  lines_per_chunk :: int
  lowcase_cutoff :: rat
  n_top_sentences :: nat
  n_top_words :: nat
  extra_sentences :: "string \<rightharpoonup> pystr list"

record files =
  dirs :: "string set"
  tables :: "string \<rightharpoonup> (pystr \<times> nat) list"
  total_counts_sentences_file :: "string \<rightharpoonup> nat"
  total_counts_words_file :: "string \<rightharpoonup> nat"

definition sentence_outfile :: "string \<Rightarrow> string" where
  "sentence_outfile langcode = ''bld/top_sentences/'' @ langcode @ ''_top_sentences.csv''"

definition word_outfile :: "string \<Rightarrow> string" where
  "word_outfile langcode = ''bld/top_words/'' @ langcode @ ''_top_words.csv''"

text \<open>
  \<open>os.makedirs\<close>, \<open>to_csv(outfile)\<close> and the update of a summary table: the dict read from
  the file gets the entry of the language and is written back.
\<close>

definition makedirs :: "string \<Rightarrow> files \<Rightarrow> files" where
  "makedirs path fs = (let ds = insert path (dirs fs) in fs\<lparr>dirs := ds\<rparr>)"

definition to_csv :: "string \<Rightarrow> (pystr \<times> nat) list \<Rightarrow> files \<Rightarrow> files" where
  "to_csv path df fs = (let ts = (tables fs)(path \<mapsto> df) in fs\<lparr>tables := ts\<rparr>)"

definition save_total_sentences :: "string \<Rightarrow> nat \<Rightarrow> files \<Rightarrow> files" where
  "save_total_sentences langcode n fs =
     (let total_counts = (total_counts_sentences_file fs)(langcode \<mapsto> n)
      in fs\<lparr>total_counts_sentences_file := total_counts\<rparr>)"

definition save_total_words :: "string \<Rightarrow> nat \<Rightarrow> files \<Rightarrow> files" where
  "save_total_words langcode n fs =
     (let total_counts = (total_counts_words_file fs)(langcode \<mapsto> n)
      in fs\<lparr>total_counts_words_file := total_counts\<rparr>)"

text \<open>\<open>check_line_count\<close>: the number of lines of the file.\<close>

definition check_line_count :: "'a list \<Rightarrow> nat" where
  "check_line_count file = length file"

text \<open>
  \<open>d[~d['sentence'].isin(extra_sentences_to_exclude()[langcode])]\<close>; a language without
  a column raises \<open>KeyError\<close>, which is caught and leaves the frame as it is.
\<close>

definition exclude_sentences ::
  "(string \<rightharpoonup> pystr list) \<Rightarrow> string \<Rightarrow> (pystr \<times> nat) list \<Rightarrow> (pystr \<times> nat) list" where
  "exclude_sentences extra langcode d =
     (case extra langcode of
        None \<Rightarrow> d
      | Some sentences \<Rightarrow> filter (\<lambda>(sentence, c). sentence \<notin> set sentences) d)"

text \<open>The end of the sentence pipeline: collapse, exclude, \<open>head(n_top_sentences)\<close>.\<close>

definition rank_sentences ::
  "settings \<Rightarrow> string \<Rightarrow> (pystr \<times> nat) list \<Rightarrow> (pystr \<times> nat) list" where
  "rank_sentences cfg langcode df =
     take (n_top_sentences cfg)
       (exclude_sentences (extra_sentences cfg) langcode
          (collapse_if_only_ending_differently df))"

text \<open>The counter of the sentence pipeline after the noise filter.\<close>

definition filtered_sentences ::
  "settings \<Rightarrow> (nat \<Rightarrow> bool) \<Rightarrow> pystr list \<Rightarrow> string \<Rightarrow> source_type \<Rightarrow> error + pystr counter" where
  "filtered_sentences cfg U parsedfile langcode source_data_type =
     (case count_sentences source_data_type (lines_per_chunk cfg) parsedfile of
        Inl e \<Rightarrow> Inl e
      | Inr d \<Rightarrow> Inr (filter_sentences U langcode d))"

definition parsedfile_to_top_sentences ::
  "settings \<Rightarrow> (nat \<Rightarrow> bool) \<Rightarrow> pystr list \<Rightarrow> string \<Rightarrow> string \<Rightarrow> source_type
     \<Rightarrow> files \<Rightarrow> error + files" where
  "parsedfile_to_top_sentences cfg U parsedfile outfile langcode source_data_type fs =
     (let fs = makedirs ''bld/top_sentences'' fs;
          nlines = check_line_count parsedfile
      in if nlines = 0 then Inr fs
         else case filtered_sentences cfg U parsedfile langcode source_data_type of
                Inl e \<Rightarrow> Inl e
              | Inr d \<Rightarrow>
                  let fs = save_total_sentences langcode (sum_list (map snd d)) fs;
                      d = remove_less_common (min_count cfg) d;
                      d = (if source_data_type = Raw then strip_keys d else d);
                      df = most_common d
                  in Inr (to_csv outfile (rank_sentences cfg langcode df) fs))"

text \<open>
  The word pipeline. \<open>tokenize_lines_mp\<close> gives the tokens of a chunk of lines; it runs
  an external segmenter for most languages and is a parameter here, as is \<open>lower\<close>.
\<close>

definition count_words ::
  "(pystr list \<Rightarrow> string \<Rightarrow> pystr list) \<Rightarrow> int \<Rightarrow> pystr list \<Rightarrow> string \<Rightarrow> error + pystr counter" where
  "count_words tokenize_lines_mp per_chunk parsedfile langcode =
     (case chunked_reader parsedfile per_chunk of
        Inl e \<Rightarrow> Inl e
      | Inr chunks \<Rightarrow>
          Inr (pop [] (count_chunks (\<lambda>lines. tokenize_lines_mp lines langcode) [] chunks)))"

definition filtered_words ::
  "settings \<Rightarrow> (nat \<Rightarrow> bool) \<Rightarrow> (pystr list \<Rightarrow> string \<Rightarrow> pystr list) \<Rightarrow> pystr list \<Rightarrow> string
     \<Rightarrow> error + pystr counter" where
  "filtered_words cfg U tokenize_lines_mp parsedfile langcode =
     (case count_words tokenize_lines_mp (lines_per_chunk cfg) parsedfile langcode of
        Inl e \<Rightarrow> Inl e
      | Inr d \<Rightarrow> Inr (filter_words U langcode d))"

definition parsedfile_to_top_words ::
  "settings \<Rightarrow> (nat \<Rightarrow> bool) \<Rightarrow> (pystr \<Rightarrow> pystr) \<Rightarrow> (pystr list \<Rightarrow> string \<Rightarrow> pystr list)
     \<Rightarrow> pystr list \<Rightarrow> string \<Rightarrow> string \<Rightarrow> files \<Rightarrow> error + files" where
  "parsedfile_to_top_words cfg U lower tokenize_lines_mp parsedfile outfile langcode fs =
     (let fs = makedirs ''bld/top_words'' fs;
          nlines = check_line_count parsedfile
      in if nlines = 0 then Inr fs
         else case filtered_words cfg U tokenize_lines_mp parsedfile langcode of
                Inl e \<Rightarrow> Inl e
              | Inr d \<Rightarrow>
                  let fs = save_total_words langcode (sum_list (map snd d)) fs;
                      d = remove_less_common (min_count cfg) d;
                      df = most_common d
                  in (case collapse_case lower df (lowcase_cutoff cfg) of
                        Inl e \<Rightarrow> Inl e
                      | Inr df \<Rightarrow>
                          Inr (to_csv outfile (take (n_top_words cfg) df) fs)))"

section \<open>Joining lines for the segmenter\<close>

text \<open>\<open>' '.join(words)\<close>.\<close>

fun join_sp :: "pystr list \<Rightarrow> pystr" where
  "join_sp [] = []"
| "join_sp [w] = w"
| "join_sp (w # v # ws) = w @ 32 # join_sp (v # ws)"

text \<open>
  \<open>join_to_min_length\<close>: the loop over \<open>strings\<close> with its two variables, and the list of the
  strings it yields.
\<close>

fun join_loop :: "pystr list \<Rightarrow> int \<Rightarrow> pystr list \<Rightarrow> int \<Rightarrow> pystr list" where
  "join_loop [] n current_words current_length =
     (if current_words \<noteq> [] then [join_sp current_words] else [])"
| "join_loop (word # strings) n current_words current_length =
     (if current_words = [] then join_loop strings n [word] (int (length word))
      else let new_length = current_length + 1 + int (length word)
           in if new_length \<ge> n
              then join_sp (current_words @ [word]) # join_loop strings n [] 0
              else join_loop strings n (current_words @ [word]) new_length)"

definition join_to_min_length :: "pystr list \<Rightarrow> int \<Rightarrow> pystr list" where
  "join_to_min_length strings n = join_loop strings n [] 0"

section \<open>The stated properties\<close>

text \<open>
  What the specification asks of a collapser with grouping key \<open>key\<close> that turns the
  frame \<open>df\<close> into \<open>out\<close>: no count is lost, the result is sorted by descending count,
  every result row carries the sum of the counts of the rows of its group, and every
  group has exactly one result row.
\<close>

definition conserves :: "('k \<Rightarrow> 'g::linorder) \<Rightarrow> ('k \<times> nat) list \<Rightarrow> ('k \<times> nat) list \<Rightarrow> bool" where
  "conserves key df out \<longleftrightarrow>
     sum_list (map snd out) = sum_list (map snd df)
     \<and> sorted_wrt (\<ge>) (map snd out)
     \<and> (\<forall>(s, c) \<in> set out. c = sum_list (map snd (group_rows key df (key s))))
     \<and> mset (map (\<lambda>r. key (fst r)) out) = mset (group_keys key df)"



section \<open>Properties of the chunk reader\<close>

lemma batches_Nil [simp]: "batches [] n = []"
  by (subst batches.simps) simp

lemma batches_zero [simp]: "batches xs 0 = []"
  by (subst batches.simps) simp

lemma batches_stop: "take n xs = [] \<Longrightarrow> batches xs n = []"
  by (subst batches.simps) simp

lemma batches_step:
  "take n xs \<noteq> [] \<Longrightarrow> batches xs n = take n xs # batches (drop n xs) n"
  by (subst batches.simps) (simp add: Let_def)

lemma concat_batches: "0 < n \<Longrightarrow> concat (batches xs n) = xs"
proof (induction xs n rule: batches.induct)
  case (1 xs n)
  show ?case
  proof (cases "take n xs = []")
    case True
    with "1.prems" have "xs = []" by simp
    then show ?thesis by simp
  next
    case False
    with "1.IH" "1.prems" have ih: "concat (batches (drop n xs) n) = drop n xs" by simp
    from False have "batches xs n = take n xs # batches (drop n xs) n"
      by (rule batches_step)
    then have "concat (batches xs n) = take n xs @ concat (batches (drop n xs) n)"
      by simp
    with ih show ?thesis by simp
  qed
qed

lemma batches_nonempty: "[] \<notin> set (batches xs n)"
proof (induction xs n rule: batches.induct)
  case (1 xs n)
  show ?case
  proof (cases "take n xs = []")
    case True
    then show ?thesis by (simp add: batches_stop)
  next
    case False
    with "1.IH" have ih: "[] \<notin> set (batches (drop n xs) n)" by simp
    from False have "batches xs n = take n xs # batches (drop n xs) n"
      by (rule batches_step)
    then have "set (batches xs n) = insert (take n xs) (set (batches (drop n xs) n))"
      by simp
    with ih False show ?thesis by auto
  qed
qed

lemma batches_full: "b \<in> set (butlast (batches xs n)) \<Longrightarrow> length b = n"
proof (induction xs n arbitrary: b rule: batches.induct)
  case (1 xs n)
  show ?case
  proof (cases "take n xs = []")
    case True
    then have "batches xs n = []" by (rule batches_stop)
    with "1.prems" show ?thesis by simp
  next
    case False
    note ne = this
    have unfold: "batches xs n = take n xs # batches (drop n xs) n"
      using ne by (rule batches_step)
    show ?thesis
    proof (cases "batches (drop n xs) n = []")
      case True
      with unfold have "butlast (batches xs n) = []" by simp
      with "1.prems" show ?thesis by simp
    next
      case False
      have "drop n xs \<noteq> []"
      proof
        assume "drop n xs = []"
        then have "batches (drop n xs) n = []" by (simp only: batches_Nil)
        with False show False by contradiction
      qed
      then have len: "n < length xs" by simp
      from False unfold
      have "butlast (batches xs n) = take n xs # butlast (batches (drop n xs) n)"
        by simp
      with "1.prems"
      have "b = take n xs \<or> b \<in> set (butlast (batches (drop n xs) n))" by simp
      then show ?thesis
      proof
        assume "b = take n xs"
        with len show ?thesis by simp
      next
        assume "b \<in> set (butlast (batches (drop n xs) n))"
        then show ?thesis by (rule "1.IH" [OF refl ne])
      qed
    qed
  qed
qed

text \<open>
  C9. For every line sequence and every positive batch size the chunk reader returns
  batches whose concatenation in order is the input; every batch but possibly the last
  has exactly the target number of lines, no batch is empty, and an empty source gives
  no batch at all.
\<close>

theorem chunked_reader_partition:
  assumes "0 < n"
  shows "\<exists>bs. chunked_reader xs n = Inr bs \<and> concat bs = xs
           \<and> (\<forall>b \<in> set (butlast bs). int (length b) = n)
           \<and> [] \<notin> set bs
           \<and> chunked_reader ([] :: 'a list) n = Inr []"
proof -
  let ?bs = "batches xs (nat n)"
  from assms have pos: "0 < nat n" by simp
  have "chunked_reader xs n = Inr ?bs"
    using assms by (simp add: chunked_reader_def batched_def)
  moreover have "concat ?bs = xs"
    using pos by (rule concat_batches)
  moreover have "\<forall>b \<in> set (butlast ?bs). int (length b) = n"
    using assms by (auto dest: batches_full)
  moreover have "[] \<notin> set ?bs"
    by (rule batches_nonempty)
  moreover have "chunked_reader ([] :: 'a list) n = Inr []"
    using assms by (simp add: chunked_reader_def batched_def)
  ultimately show ?thesis by blast
qed

theorem chunked_reader_partition_witness:
  "(0::int) < 2 \<and> chunked_reader [1, 2, 3, 4, 5 :: nat] 2 = Inr [[1, 2], [3, 4], [5]]"
proof -
  have pos: "(0::int) < 2" by simp
  from chunked_reader_partition [OF pos, of "[1, 2, 3, 4, 5 :: nat]"]
  obtain bs where bs: "chunked_reader [1, 2, 3, 4, 5 :: nat] 2 = Inr bs" by blast
  have "chunked_reader [1, 2, 3, 4, 5 :: nat] 2 = Inr [[1, 2], [3, 4], [5]]"
    by code_simp
  with pos show ?thesis by simp
qed

section \<open>Properties of joining lines\<close>

lemma join_sp_Cons: "ws \<noteq> [] \<Longrightarrow> join_sp (w # ws) = w @ 32 # join_sp ws"
  by (cases ws) simp_all

lemma join_sp_append:
  "xs \<noteq> [] \<Longrightarrow> ys \<noteq> [] \<Longrightarrow> join_sp (xs @ ys) = join_sp xs @ 32 # join_sp ys"
proof (induction xs rule: join_sp.induct)
  case 1
  then show ?case by simp
next
  case (2 w)
  then show ?case by (simp add: join_sp_Cons)
next
  case (3 w v ws)
  then show ?case by simp
qed

lemma join_loop_Nil_iff: "join_loop ss n cw cl = [] \<longleftrightarrow> ss = [] \<and> cw = []"
  by (induction ss arbitrary: cw cl) (auto simp: Let_def)

lemma join_sp_join_loop: "join_sp (join_loop ss n cw cl) = join_sp (cw @ ss)"
proof (induction ss arbitrary: cw cl)
  case Nil
  then show ?case by simp
next
  case (Cons w ss)
  show ?case
  proof (cases "cw = []")
    case True
    then show ?thesis by (simp add: Cons.IH)
  next
    case False
    let ?nl = "cl + 1 + int (length w)"
    show ?thesis
    proof (cases "n \<le> ?nl")
      case flush: True
      have step: "join_loop (w # ss) n cw cl = join_sp (cw @ [w]) # join_loop ss n [] 0"
        using False flush by (simp add: Let_def)
      show ?thesis
      proof (cases "ss = []")
        case True
        with step show ?thesis by simp
      next
        case ne: False
        then have "join_loop ss n [] 0 \<noteq> []" by (simp add: join_loop_Nil_iff)
        then have "join_sp (join_loop (w # ss) n cw cl)
                   = join_sp (cw @ [w]) @ 32 # join_sp (join_loop ss n [] 0)"
          unfolding step by (rule join_sp_Cons)
        also have "\<dots> = join_sp (cw @ [w]) @ 32 # join_sp ss"
          by (simp add: Cons.IH)
        also have "\<dots> = join_sp ((cw @ [w]) @ ss)"
          using ne join_sp_append [of "cw @ [w]" ss] by simp
        finally show ?thesis by simp
      qed
    next
      case keep: False
      have "join_loop (w # ss) n cw cl = join_loop ss n (cw @ [w]) ?nl"
        using False keep by (simp add: Let_def)
      then show ?thesis by (simp add: Cons.IH)
    qed
  qed
qed

lemma length_join_sp_snoc:
  "cw \<noteq> [] \<Longrightarrow> length (join_sp (cw @ [w])) = length (join_sp cw) + 1 + length w"
  by (simp add: join_sp_append)

lemma join_loop_min_length:
  "(cw \<noteq> [] \<longrightarrow> cl = int (length (join_sp cw))) \<Longrightarrow>
   l \<in> set (butlast (join_loop ss n cw cl)) \<Longrightarrow> n \<le> int (length l)"
proof (induction ss arbitrary: cw cl)
  case Nil
  then show ?case by (simp split: if_splits)
next
  case (Cons w ss)
  show ?case
  proof (cases "cw = []")
    case True
    with Cons.prems(2) have "l \<in> set (butlast (join_loop ss n [w] (int (length w))))"
      by simp
    moreover have "[w] \<noteq> [] \<longrightarrow> int (length w) = int (length (join_sp [w]))" by simp
    ultimately show ?thesis by (rule Cons.IH [rotated])
  next
    case False
    with Cons.prems(1) have cl: "cl = int (length (join_sp cw))" by simp
    let ?nl = "cl + 1 + int (length w)"
    have nl: "?nl = int (length (join_sp (cw @ [w])))"
      using False cl by (simp add: length_join_sp_snoc)
    show ?thesis
    proof (cases "n \<le> ?nl")
      case flush: True
      have step: "join_loop (w # ss) n cw cl = join_sp (cw @ [w]) # join_loop ss n [] 0"
        using False flush by (simp add: Let_def)
      from Cons.prems(2) have
        "l = join_sp (cw @ [w]) \<or> l \<in> set (butlast (join_loop ss n [] 0))"
        unfolding step by (simp split: if_splits)
      then show ?thesis
      proof
        assume "l = join_sp (cw @ [w])"
        with flush nl show ?thesis by simp
      next
        assume "l \<in> set (butlast (join_loop ss n [] 0))"
        moreover have "([] :: pystr list) \<noteq> [] \<longrightarrow> 0 = int (length (join_sp []))" by simp
        ultimately show ?thesis by (rule Cons.IH [rotated])
      qed
    next
      case keep: False
      have "join_loop (w # ss) n cw cl = join_loop ss n (cw @ [w]) ?nl"
        using False keep by (simp add: Let_def)
      with Cons.prems(2) have "l \<in> set (butlast (join_loop ss n (cw @ [w]) ?nl))"
        by simp
      moreover have "cw @ [w] \<noteq> [] \<longrightarrow> ?nl = int (length (join_sp (cw @ [w])))"
        using nl by simp
      ultimately show ?thesis by (rule Cons.IH [rotated])
    qed
  qed
qed

text \<open>
  C10. For every finite sequence of strings and every threshold \<open>n\<close>, the lines that
  \<open>join_to_min_length\<close> yields, joined with single spaces, are the input strings joined
  with single spaces (nothing lost, duplicated or reordered), and every yielded line
  except possibly the last has length at least \<open>n\<close>.
\<close>

theorem join_to_min_length_preserves:
  "join_sp (join_to_min_length strings n) = join_sp strings
   \<and> (\<forall>l \<in> set (butlast (join_to_min_length strings n)). n \<le> int (length l))"
proof
  show "join_sp (join_to_min_length strings n) = join_sp strings"
    by (simp add: join_to_min_length_def join_sp_join_loop)
next
  show "\<forall>l \<in> set (butlast (join_to_min_length strings n)). n \<le> int (length l)"
  proof
    fix l
    assume "l \<in> set (butlast (join_to_min_length strings n))"
    then have "l \<in> set (butlast (join_loop strings n [] 0))"
      by (simp add: join_to_min_length_def)
    moreover have "([] :: pystr list) \<noteq> [] \<longrightarrow> 0 = int (length (join_sp []))" by simp
    ultimately show "n \<le> int (length l)" by (rule join_loop_min_length [rotated])
  qed
qed

theorem join_to_min_length_preserves_witness:
  "join_to_min_length [py ''ab'', py ''cd'', py ''e'', py ''f'', py ''g''] 5
     = [py ''ab cd'', py ''e f g'']
   \<and> py ''ab cd'' \<in> set (butlast (join_to_min_length
         [py ''ab'', py ''cd'', py ''e'', py ''f'', py ''g''] 5))
   \<and> (5 :: int) \<le> int (length (py ''ab cd''))
   \<and> join_sp [py ''ab cd'', py ''e f g'']
     = join_sp [py ''ab'', py ''cd'', py ''e'', py ''f'', py ''g'']"
proof -
  let ?in = "[py ''ab'', py ''cd'', py ''e'', py ''f'', py ''g'']"
  have run: "join_to_min_length ?in 5 = [py ''ab cd'', py ''e f g'']"
    by (simp add: join_to_min_length_def py_def)
  then have mem: "py ''ab cd'' \<in> set (butlast (join_to_min_length ?in 5))"
    by simp
  from join_to_min_length_preserves [of ?in 5] mem
  have "(5 :: int) \<le> int (length (py ''ab cd''))" by blast
  moreover from join_to_min_length_preserves [of ?in 5] run
  have "join_sp [py ''ab cd'', py ''e f g''] = join_sp ?in" by simp
  ultimately show ?thesis using run mem by blast
qed

section \<open>Properties of the aggregation loop\<close>

lemma counter_update_append:
  "counter_update d (xs @ ys) = counter_update (counter_update d xs) ys"
  by (induction xs arbitrary: d) simp_all

lemma count_chunks_concat:
  "count_chunks f d chunks = counter_update d (concat (map f chunks))"
  by (induction chunks arbitrary: d) (simp_all add: counter_update_append)

lemma sentence_keys_concat:
  "concat (map (sentence_keys sdt) chunks) = sentence_keys sdt (concat chunks)"
  by (induction chunks) (simp_all add: sentence_keys_def)

lemma count_sentences_whole:
  assumes "0 < n"
  shows "count_sentences sdt n file = Inr (pop [] (counter_update [] (sentence_keys sdt file)))"
proof -
  from assms have pos: "0 < nat n" by simp
  have "chunked_reader file n = Inr (batches file (nat n))"
    using assms by (simp add: chunked_reader_def batched_def)
  moreover have "concat (batches file (nat n)) = file"
    using pos by (rule concat_batches)
  ultimately show ?thesis
    by (simp add: count_sentences_def count_chunks_concat sentence_keys_concat)
qed

lemma sum_pop_counter_incr:
  "sum_list (map snd (pop key (counter_incr k d)))
     = sum_list (map snd (pop key d)) + (if k = key then 0 else 1)"
  by (induction d) (auto simp: pop_def)

lemma sum_pop_counter_update:
  "sum_list (map snd (pop key (counter_update d ks)))
     = sum_list (map snd (pop key d)) + length (filter (\<lambda>k. k \<noteq> key) ks)"
  by (induction ks arbitrary: d) (simp_all add: sum_pop_counter_incr)

text \<open>
  C1. The table that the chunked loop of the sentence pipeline produces (chunks from
  \<open>chunked_reader\<close>, \<open>Counter.update\<close> per chunk, the empty key removed) does not depend on
  the chunk size: two positive chunk sizes give the same table. The sum of its counts,
  before noise filtering and collapsing, is the number of corpus lines whose key is not
  empty.
\<close>

theorem count_sentences_chunk_invariant:
  assumes "0 < m" and "0 < n"
  shows "count_sentences sdt m file = count_sentences sdt n file
         \<and> (\<exists>d. count_sentences sdt n file = Inr d
               \<and> sum_list (map snd d)
                   = length (filter (\<lambda>k. k \<noteq> []) (sentence_keys sdt file)))"
proof -
  let ?d = "pop [] (counter_update [] (sentence_keys sdt file))"
  have m: "count_sentences sdt m file = Inr ?d"
    using assms(1) by (rule count_sentences_whole)
  have n: "count_sentences sdt n file = Inr ?d"
    using assms(2) by (rule count_sentences_whole)
  have "sum_list (map snd ?d) = length (filter (\<lambda>k. k \<noteq> []) (sentence_keys sdt file))"
    by (simp add: sum_pop_counter_update) (simp add: pop_def)
  with m n show ?thesis by simp
qed

theorem count_sentences_chunk_invariant_witness:
  "(0::int) < 1 \<and> (0::int) < 2
   \<and> count_sentences Text 1 [py ''b '', py ''-a'', py '' '', py ''a'', py ''b'']
       = Inr [(py ''b'', 2), (py ''a'', 2)]
   \<and> count_sentences Text 2 [py ''b '', py ''-a'', py '' '', py ''a'', py ''b'']
       = Inr [(py ''b'', 2), (py ''a'', 2)]"
proof -
  let ?file = "[py ''b '', py ''-a'', py '' '', py ''a'', py ''b'']"
  have one: "(0::int) < 1" and two: "(0::int) < 2" by simp_all
  have run: "count_sentences Text 2 ?file = Inr [(py ''b'', 2), (py ''a'', 2)]"
    by (simp add: count_sentences_def chunked_reader_def batched_def batches_step
          sentence_keys_def strip_chars_def linestrip_pattern_def pop_def py_def)
  from count_sentences_chunk_invariant [OF one two, of Text ?file]
  have "count_sentences Text 1 ?file = count_sentences Text 2 ?file" by blast
  with run one two show ?thesis by simp
qed

section \<open>Properties of sorting and grouping\<close>

lemma mset_sort_values: "mset (sort_values df) = mset df"
  by (simp add: sort_values_def)

lemma set_sort_values: "set (sort_values df) = set df"
  by (simp add: sort_values_def)

lemma sum_sort_values: "sum_list (map snd (sort_values df)) = sum_list (map snd df)"
proof -
  have "mset (map snd (sort_values df)) = mset (map snd df)"
    by (simp add: mset_sort_values)
  then have "sum_mset (mset (map snd (sort_values df))) = sum_mset (mset (map snd df))"
    by (rule arg_cong)
  then show ?thesis by (simp only: sum_mset_sum_list)
qed

lemma sorted_sort_values: "sorted_wrt (\<ge>) (map snd (sort_values df))"
proof -
  have "sorted (map snd (sort_key snd (rev df)))" by (rule sorted_sort_key)
  then have "sorted_wrt (\<ge>) (rev (map snd (sort_key snd (rev df))))"
    by (simp add: sorted_wrt_rev)
  then show ?thesis by (simp add: sort_values_def rev_map)
qed

lemma filter_sort_values: "filter P (sort_values df) = sort_values (filter P df)"
  by (simp add: sort_values_def filter_sort rev_filter [symmetric])

lemma group_rows_sort_values:
  "group_rows key (sort_values df) g = sort_values (group_rows key df g)"
  by (simp add: group_rows_def filter_sort_values)

lemma group_keys_set: "set (group_keys key df) = (\<lambda>r. key (fst r)) ` set df"
  by (simp add: group_keys_def)

lemma group_keys_distinct: "distinct (group_keys key df)"
  by (simp add: group_keys_def)

lemma group_keys_sort_values: "group_keys key (sort_values df) = group_keys key df"
proof (rule sorted_distinct_set_unique)
  show "sorted (group_keys key (sort_values df))" by (simp add: group_keys_def)
  show "distinct (group_keys key (sort_values df))" by (rule group_keys_distinct)
  show "sorted (group_keys key df)" by (simp add: group_keys_def)
  show "distinct (group_keys key df)" by (rule group_keys_distinct)
  show "set (group_keys key (sort_values df)) = set (group_keys key df)"
    by (simp add: group_keys_set set_sort_values)
qed

lemma group_rows_nonempty: "g \<in> set (group_keys key df) \<Longrightarrow> group_rows key df g \<noteq> []"
  by (auto simp: group_keys_set group_rows_def filter_empty_conv)

lemma group_rows_key: "r \<in> set (group_rows key df g) \<Longrightarrow> key (fst r) = g"
  by (simp add: group_rows_def)







text \<open>Summing group by group reaches every row once.\<close>

lemma sum_list_single:
  "distinct gs \<Longrightarrow>
   sum_list (map (\<lambda>g. if k = g then (v::nat) else 0) gs) = (if k \<in> set gs then v else 0)"
  by (induction gs) auto

lemma sum_groups:
  assumes "distinct gs" and "\<forall>r \<in> set df. key (fst r) \<in> set gs"
  shows "sum_list (map (\<lambda>g. sum_list (map snd (group_rows key df g))) gs)
           = sum_list (map snd df)"
  using assms(2)
proof (induction df)
  case Nil
  then show ?case by (simp add: group_rows_def)
next
  case (Cons r df)
  have split: "sum_list (map snd (group_rows key (r # df) g))
      = (if key (fst r) = g then snd r else 0) + sum_list (map snd (group_rows key df g))" for g
    by (simp add: group_rows_def)
  have "sum_list (map (\<lambda>g. sum_list (map snd (group_rows key (r # df) g))) gs)
      = sum_list (map (\<lambda>g. if key (fst r) = g then snd r else 0) gs)
        + sum_list (map (\<lambda>g. sum_list (map snd (group_rows key df g))) gs)"
    by (simp only: split sum_list_addf)
  also have "sum_list (map (\<lambda>g. if key (fst r) = g then snd r else 0) gs) = snd r"
    using assms(1) Cons.prems by (simp add: sum_list_single)
  also have "sum_list (map (\<lambda>g. sum_list (map snd (group_rows key df g))) gs)
      = sum_list (map snd df)"
    using Cons.prems by (intro Cons.IH) simp
  finally show ?case by simp
qed

lemma sum_group_rows:
  "sum_list (map (\<lambda>g. sum_list (map snd (group_rows key df g))) (group_keys key df))
     = sum_list (map snd df)"
  by (rule sum_groups) (simp_all add: group_keys_distinct group_keys_set)

text \<open>
  What \<open>collapse_first_sum\<close> computes, in terms of the frame it is given: one row per
  group, with the text of the first row of the group among those with the largest count
  and with the sum of the counts of the group; the rows sorted by descending sum.
\<close>

lemma collapse_first_sum_rows:
  "collapse_first_sum key df =
     sort_values (map (\<lambda>g. (fst (hd (sort_values (group_rows key df g))),
                            sum_list (map snd (group_rows key df g))))
                    (group_keys key df))"
  by (simp add: collapse_first_sum_def Let_def agg_first_sum_def group_keys_sort_values
        group_rows_sort_values sum_sort_values)

section \<open>Conservation by the collapsers\<close>

lemma conserves_rows:
  assumes rows: "rows = map (\<lambda>g. (w g, sum_list (map snd (group_rows key df g))))
                          (group_keys key df)"
    and w: "\<And>g. g \<in> set (group_keys key df) \<Longrightarrow> key (w g) = g"
  shows "conserves key df (sort_values rows)"
proof -
  have sum: "sum_list (map snd (sort_values rows)) = sum_list (map snd df)"
  proof -
    have "map snd rows = map (\<lambda>g. sum_list (map snd (group_rows key df g))) (group_keys key df)"
      by (simp add: rows)
    then show ?thesis by (simp add: sum_sort_values sum_group_rows)
  qed
  have each: "\<forall>(s, c) \<in> set (sort_values rows).
      c = sum_list (map snd (group_rows key df (key s)))"
  proof (clarify)
    fix s c assume "(s, c) \<in> set (sort_values rows)"
    then have "(s, c) \<in> set rows" by (simp add: set_sort_values)
    then obtain g where g: "g \<in> set (group_keys key df)" "s = w g"
      "c = sum_list (map snd (group_rows key df g))" by (auto simp: rows)
    from g(1) have "key (w g) = g" by (rule w)
    with g show "c = sum_list (map snd (group_rows key df (key s)))" by simp
  qed
  have keys: "mset (map (\<lambda>r. key (fst r)) (sort_values rows)) = mset (group_keys key df)"
  proof -
    have "mset (map (\<lambda>r. key (fst r)) (sort_values rows))
        = image_mset (\<lambda>r. key (fst r)) (mset (sort_values rows))" by simp
    also have "\<dots> = image_mset (\<lambda>r. key (fst r)) (mset rows)"
      by (simp only: mset_sort_values)
    also have "\<dots> = mset (map (\<lambda>r. key (fst r)) rows)" by simp
    also have "map (\<lambda>r. key (fst r)) rows = map (\<lambda>g. key (w g)) (group_keys key df)"
      by (simp add: rows)
    also have "\<dots> = map (\<lambda>g. g) (group_keys key df)"
      by (rule map_cong) (simp_all add: w)
    finally show ?thesis by simp
  qed
  from sum sorted_sort_values each keys show ?thesis
    unfolding conserves_def by blast
qed

lemma hd_sort_values_in: "grp \<noteq> [] \<Longrightarrow> hd (sort_values grp) \<in> set grp"
proof -
  assume "grp \<noteq> []"
  moreover have "length (sort_values grp) = length grp" by (simp add: sort_values_def)
  ultimately have "sort_values grp \<noteq> []" by (metis length_0_conv)
  then have "hd (sort_values grp) \<in> set (sort_values grp)" by (rule hd_in_set)
  then show ?thesis by (simp only: set_sort_values)
qed

lemma conserves_first_sum: "conserves key df (collapse_first_sum key df)"
proof -
  let ?w = "\<lambda>g. fst (hd (sort_values (group_rows key df g)))"
  have "conserves key df
      (sort_values (map (\<lambda>g. (?w g, sum_list (map snd (group_rows key df g))))
                      (group_keys key df)))"
  proof (rule conserves_rows [OF refl])
    fix g assume "g \<in> set (group_keys key df)"
    then have "group_rows key df g \<noteq> []" by (rule group_rows_nonempty)
    then have "hd (sort_values (group_rows key df g)) \<in> set (group_rows key df g)"
      by (rule hd_sort_values_in)
    then show "key (?w g) = g" by (rule group_rows_key)
  qed
  then show ?thesis by (simp only: collapse_first_sum_rows)
qed

text \<open>\<open>wordcase_by_cutoff\<close> on a group whose counts do not add up to zero.\<close>

lemma takeWhile_shorter: "\<exists>x \<in> set xs. \<not> P x \<Longrightarrow> length (takeWhile P xs) < length xs"
  by (induction xs) auto

lemma idxmax_bool_True:
  assumes "list_ex id bs"
  shows "idxmax_bool bs < length bs \<and> bs ! idxmax_bool bs"
proof -
  from assms have "\<exists>b \<in> set bs. \<not> Not b" by (simp add: list_ex_iff)
  then have less: "length (takeWhile Not bs) < length bs" by (rule takeWhile_shorter)
  then have "\<not> Not (bs ! length (takeWhile Not bs))" by (rule nth_length_takeWhile)
  with less show ?thesis by (simp add: idxmax_bool_def)
qed

lemma idxmax_less: "xs \<noteq> [] \<Longrightarrow> idxmax xs < length xs"
proof -
  assume "xs \<noteq> []"
  then have "Max (set xs) \<in> set xs" by (intro Max_in) simp_all
  then have "\<exists>x \<in> set xs. \<not> x \<noteq> Max (set xs)" by simp
  then have "length (takeWhile (\<lambda>x. x \<noteq> Max (set xs)) xs) < length xs"
    by (rule takeWhile_shorter)
  then show ?thesis by (simp add: idxmax_def)
qed

lemma wordcase_by_cutoff_member:
  assumes ne: "grp \<noteq> []" and pos: "0 < sum_list (map snd grp)"
  shows "\<exists>w. wordcase_by_cutoff lower cutoff grp = Inr (w, sum_list (map snd grp))
           \<and> w \<in> fst ` set grp"
proof -
  define n where "n = sum_list (map snd grp)"
  define share where "share = map (\<lambda>(w, c). share_of c n) grp"
  define is_low where "is_low = map (\<lambda>(w, c). w = lower w) grp"
  define flags where "flags = map (\<lambda>(l, s). l \<and> n \<noteq> 0 \<and> s > cutoff) (zip is_low share)"
  have unfold: "wordcase_by_cutoff lower cutoff grp =
      (if list_ex id flags then Inr (lower (fst (grp ! idxmax_bool flags)), n)
       else if n = 0 then Inl KeyError
       else Inr (fst (grp ! idxmax share), n))"
    unfolding wordcase_by_cutoff_def Let_def n_def share_def is_low_def flags_def ..
  have len: "length flags = length grp" "length share = length grp"
    by (simp_all add: flags_def is_low_def share_def)
  show ?thesis
  proof (cases "list_ex id flags")
    case True
    let ?i = "idxmax_bool flags"
    from idxmax_bool_True [OF True] have i: "?i < length grp" and at: "flags ! ?i"
      using len by simp_all
    from i have "flags ! ?i = (is_low ! ?i \<and> n \<noteq> 0 \<and> share ! ?i > cutoff)"
      by (simp add: flags_def is_low_def share_def)
    with at have "is_low ! ?i" by simp
    with i have low: "lower (fst (grp ! ?i)) = fst (grp ! ?i)"
      by (simp add: is_low_def case_prod_beta)
    from i have mem: "fst (grp ! ?i) \<in> fst ` set grp" by simp
    have "wordcase_by_cutoff lower cutoff grp = Inr (lower (fst (grp ! ?i)), n)"
      using True by (simp only: unfold if_True)
    then have "wordcase_by_cutoff lower cutoff grp = Inr (fst (grp ! ?i), n)"
      by (simp only: low)
    with mem show ?thesis unfolding n_def by blast
  next
    case False
    let ?i = "idxmax share"
    from ne have "share \<noteq> []" by (simp add: share_def)
    then have "?i < length share" by (rule idxmax_less)
    with len have "fst (grp ! ?i) \<in> fst ` set grp" by simp
    moreover from pos have "n \<noteq> 0" unfolding n_def by (rule gr_implies_not0)
    with False have "wordcase_by_cutoff lower cutoff grp = Inr (fst (grp ! ?i), n)"
      by (simp only: unfold if_False)
    ultimately show ?thesis unfolding n_def by blast
  qed
qed

lemma apply_groups_Inr:
  "map f gs = map Inr rs \<Longrightarrow> apply_groups f gs = Inr rs"
proof (induction gs arbitrary: rs)
  case Nil
  then show ?case by simp
next
  case (Cons g gs)
  from Cons.prems obtain r rs' where rs: "rs = r # rs'" "f g = Inr r" "map f gs = map Inr rs'"
    by (cases rs) auto
  from rs(3) have "apply_groups f gs = Inr rs'" by (rule Cons.IH)
  with rs show ?case by simp
qed

lemma sum_group_pos:
  assumes "\<forall>r \<in> set df. 0 < snd r" and "g \<in> set (group_keys key df)"
  shows "0 < sum_list (map snd (group_rows key df g))"
proof -
  from assms(2) have "group_rows key df g \<noteq> []" by (rule group_rows_nonempty)
  then obtain r rs where grp: "group_rows key df g = r # rs" by (cases "group_rows key df g") auto
  then have "r \<in> set (group_rows key df g)" by simp
  then have "r \<in> set df" by (simp add: group_rows_def)
  with assms(1) have "0 < snd r" by simp
  with grp show ?thesis by simp
qed

lemma collapse_case_cutoff:
  assumes pos: "\<forall>r \<in> set df. 0 < snd r" and cut: "cutoff \<noteq> 1 / 2"
  shows "\<exists>out. collapse_case lower df cutoff = Inr out \<and> conserves lower df out"
proof -
  define G where "G = group_rows lower df"
  define f where "f = wordcase_by_cutoff lower cutoff"
  define w where "w = (\<lambda>g. fst (projr (f (G g))))"
  define rows where "rows = map (\<lambda>g. (w g, sum_list (map snd (G g)))) (group_keys lower df)"
  have res: "f (G g) = Inr (w g, sum_list (map snd (G g))) \<and> lower (w g) = g"
    if g: "g \<in> set (group_keys lower df)" for g
  proof -
    from g have "G g \<noteq> []" unfolding G_def by (rule group_rows_nonempty)
    moreover from pos g have "0 < sum_list (map snd (G g))"
      unfolding G_def by (rule sum_group_pos)
    ultimately obtain v where v: "f (G g) = Inr (v, sum_list (map snd (G g)))"
      "v \<in> fst ` set (G g)" unfolding f_def using wordcase_by_cutoff_member by blast
    from v(2) obtain r where "r \<in> set (group_rows lower df g)" "v = fst r"
      unfolding G_def by blast
    then have "lower v = g" by (simp add: group_rows_key)
    moreover from v(1) have "w g = v" by (simp add: w_def)
    ultimately show ?thesis using v(1) by simp
  qed
  have "map f (map G (group_keys lower df)) = map Inr rows"
    unfolding rows_def map_map by (rule map_cong [OF refl]) (simp add: res)
  then have "apply_groups f (map G (group_keys lower df)) = Inr rows"
    by (rule apply_groups_Inr)
  then have "collapse_case lower df cutoff = Inr (sort_values rows)"
    using cut by (simp add: collapse_case_def f_def G_def)
  moreover have "conserves lower df (sort_values rows)"
  proof (rule conserves_rows)
    show "rows = map (\<lambda>g. (w g, sum_list (map snd (group_rows lower df g))))
                    (group_keys lower df)"
      by (simp add: rows_def G_def)
    show "lower (w g) = g" if "g \<in> set (group_keys lower df)" for g
      using res [OF that] by simp
  qed
  ultimately show ?thesis by blast
qed

section \<open>The claims on collapsing\<close>

text \<open>
  C2. Both variant collapsers conserve volume and order the result. For every frame the
  sentence collapse and the word-case collapse with cutoff \<open>0.5\<close> return a frame whose
  counts add up to those of the input, sorted by descending count, with one row per
  group that carries the sum of the counts of the group. The word-case collapse with
  any other cutoff does the same on every frame of positive counts, which are the
  frames a \<open>Counter\<close> of occurrences gives.
\<close>

theorem collapsers_conserve:
  "conserves (strip_chars ending_chars) df (collapse_if_only_ending_differently df)
   \<and> collapse_case lower df (1 / 2) = Inr (collapse_first_sum lower df)
   \<and> conserves lower df (collapse_first_sum lower df)
   \<and> ((\<forall>r \<in> set df. 0 < snd r) \<longrightarrow>
        (\<exists>out. collapse_case lower df cutoff = Inr out \<and> conserves lower df out))"
proof -
  have sentences:
    "conserves (strip_chars ending_chars) df (collapse_if_only_ending_differently df)"
    unfolding collapse_if_only_ending_differently_def by (rule conserves_first_sum)
  have half: "collapse_case lower df (1 / 2) = Inr (collapse_first_sum lower df)"
    by (simp add: collapse_case_def)
  have first: "conserves lower df (collapse_first_sum lower df)"
    by (rule conserves_first_sum)
  have "\<exists>out. collapse_case lower df cutoff = Inr out \<and> conserves lower df out"
    if pos: "\<forall>r \<in> set df. 0 < snd r"
  proof (cases "cutoff = 1 / 2")
    case True
    with half first show ?thesis by blast
  next
    case False
    with pos show ?thesis by (rule collapse_case_cutoff)
  qed
  with sentences half first show ?thesis by blast
qed

theorem collapsers_conserve_witness:
  "list_all (\<lambda>r. 0 < snd r)
      [(py ''Run'', 70), (py ''run'', 30), (py ''Paris'', 50), (py ''paris'', 2 :: nat)]
   \<and> collapse_case ascii_lower
        [(py ''Run'', 70), (py ''run'', 30), (py ''Paris'', 50), (py ''paris'', 2)] (2 / 25)
       = Inr [(py ''run'', 100), (py ''Paris'', 52)]
   \<and> conserves ascii_lower
        [(py ''Run'', 70), (py ''run'', 30), (py ''Paris'', 50), (py ''paris'', 2)]
        [(py ''run'', 100), (py ''Paris'', 52)]
   \<and> sum_list (map snd [(py ''run'', 100 :: nat), (py ''Paris'', 52)])
       = sum_list (map snd
           [(py ''Run'', 70 :: nat), (py ''run'', 30), (py ''Paris'', 50), (py ''paris'', 2)])"
proof -
  let ?df = "[(py ''Run'', 70), (py ''run'', 30), (py ''Paris'', 50), (py ''paris'', 2 :: nat)]"
  let ?out = "[(py ''run'', 100), (py ''Paris'', 52 :: nat)]"
  have pos: "\<forall>r \<in> set ?df. 0 < snd r" by simp
  have posl: "list_all (\<lambda>r. 0 < snd r) ?df" by simp
  have run: "collapse_case ascii_lower ?df (2 / 25) = Inr ?out"
    unfolding py_def by code_simp
  from collapsers_conserve [of ?df ascii_lower "2 / 25"] pos
  obtain out where "collapse_case ascii_lower ?df (2 / 25) = Inr out"
    and "conserves ascii_lower ?df out" by blast
  with run have cons: "conserves ascii_lower ?df ?out" by simp
  then have "sum_list (map snd ?out) = sum_list (map snd ?df)"
    unfolding conserves_def by (rule conjunct1)
  with posl run cons show ?thesis by blast
qed

text \<open>
  C4. The word-case collapse of the group of \<open>Run\<close> with count 70 and \<open>run\<close> with count 30,
  in either order of the two rows: with cutoff \<open>0.5\<close> the row is \<open>Run\<close> with count 100, the
  member with the highest count; with cutoff \<open>0.2\<close> it is \<open>run\<close> with count 100, since the
  share of the lowercase member, \<open>30/100 = 0.3\<close>, is strictly above the cutoff.
\<close>

theorem collapse_case_run:
  "collapse_case ascii_lower [(py ''Run'', 70), (py ''run'', 30)] (1 / 2) = Inr [(py ''Run'', 100)]
   \<and> collapse_case ascii_lower [(py ''run'', 30), (py ''Run'', 70)] (1 / 2) = Inr [(py ''Run'', 100)]
   \<and> collapse_case ascii_lower [(py ''Run'', 70), (py ''run'', 30)] (1 / 5) = Inr [(py ''run'', 100)]
   \<and> collapse_case ascii_lower [(py ''run'', 30), (py ''Run'', 70)] (1 / 5) = Inr [(py ''run'', 100)]
   \<and> share_of 30 (70 + 30) = 3 / 10 \<and> share_of 30 (70 + 30) > 1 / 5"
proof -
  have "collapse_case ascii_lower [(py ''Run'', 70), (py ''run'', 30)] (1 / 2)
          = Inr [(py ''Run'', 100)]"
    unfolding py_def by code_simp
  moreover have "collapse_case ascii_lower [(py ''run'', 30), (py ''Run'', 70)] (1 / 2)
          = Inr [(py ''Run'', 100)]"
    unfolding py_def by code_simp
  moreover have "collapse_case ascii_lower [(py ''Run'', 70), (py ''run'', 30)] (1 / 5)
          = Inr [(py ''run'', 100)]"
    unfolding py_def by code_simp
  moreover have "collapse_case ascii_lower [(py ''run'', 30), (py ''Run'', 70)] (1 / 5)
          = Inr [(py ''run'', 100)]"
    unfolding py_def by code_simp
  moreover have "share_of 30 (70 + 30) = 3 / 10" by (simp add: share_of_def)
  moreover have "share_of 30 (70 + 30) > 1 / 5" by (simp add: share_of_def)
  ultimately show ?thesis by blast
qed

section \<open>The canonical form under any descending sort\<close>




lemma descending_sort_values: "descending_sort sort_values"
  unfolding descending_sort_def
  by (intro allI conjI) (rule mset_sort_values, rule sorted_sort_values)














section \<open>Ranking and the empty corpus\<close>




text \<open>
  C8. On a corpus file without lines both pipelines return without an error, after
  creating their output directory at most: no table is written and the two summary
  tables are as they were, whatever the settings.
\<close>

theorem empty_corpus_no_output:
  "(\<exists>fs'. parsedfile_to_top_sentences cfg U [] outfile langcode source_data_type fs = Inr fs'
          \<and> tables fs' = tables fs
          \<and> total_counts_sentences_file fs' = total_counts_sentences_file fs
          \<and> total_counts_words_file fs' = total_counts_words_file fs)
   \<and> (\<exists>fs'. parsedfile_to_top_words cfg U lower tokenize_lines_mp [] outfile langcode fs = Inr fs'
          \<and> tables fs' = tables fs
          \<and> total_counts_sentences_file fs' = total_counts_sentences_file fs
          \<and> total_counts_words_file fs' = total_counts_words_file fs)"
proof
  have "parsedfile_to_top_sentences cfg U [] outfile langcode source_data_type fs
      = Inr (makedirs ''bld/top_sentences'' fs)"
    by (simp add: parsedfile_to_top_sentences_def check_line_count_def Let_def)
  then show "\<exists>fs'. parsedfile_to_top_sentences cfg U [] outfile langcode source_data_type fs
          = Inr fs'
      \<and> tables fs' = tables fs
      \<and> total_counts_sentences_file fs' = total_counts_sentences_file fs
      \<and> total_counts_words_file fs' = total_counts_words_file fs"
    by (simp add: makedirs_def Let_def)
next
  have "parsedfile_to_top_words cfg U lower tokenize_lines_mp [] outfile langcode fs
      = Inr (makedirs ''bld/top_words'' fs)"
    by (simp add: parsedfile_to_top_words_def check_line_count_def Let_def)
  then show "\<exists>fs'. parsedfile_to_top_words cfg U lower tokenize_lines_mp [] outfile langcode fs
          = Inr fs'
      \<and> tables fs' = tables fs
      \<and> total_counts_sentences_file fs' = total_counts_sentences_file fs
      \<and> total_counts_words_file fs' = total_counts_words_file fs"
    by (simp add: makedirs_def Let_def)
qed

section \<open>Properties of the noise filter\<close>

lemma punctuation_and_numbers_regex_all:
  assumes "k \<noteq> []" and "\<forall>c \<in> set k. punct_num_class U c"
  shows "punctuation_and_numbers_regex U k"
proof -
  from assms(2) have whole: "takeWhile (punct_num_class U) k = k" by simp
  from assms(1) have "length k \<in> set [1 ..< Suc (length k)]"
    by (cases k) simp_all
  moreover have "at_end (drop (length k) k)" by (simp add: at_end_def)
  ultimately have "\<exists>n \<in> set [1 ..< Suc (length k)]. at_end (drop n k)" by blast
  then show ?thesis
    unfolding punctuation_and_numbers_regex_def whole list_ex_iff .
qed


lemma punct_num_class_iff:
  "punct_num_class U c \<longleftrightarrow> (if c < 128 then \<not> ascii_letter c else \<not> U c)"
  by (auto simp: punct_num_class_def word_char_def ascii_digit_def ascii_letter_def)

lemma punctuation_and_numbers_regex_only:
  assumes "punctuation_and_numbers_regex U k"
  shows "k \<noteq> [] \<and> (\<forall>c \<in> set k. punct_num_class U c)"
proof -
  let ?P = "punct_num_class U"
  let ?t = "takeWhile ?P k"
  from assms obtain n where n: "1 \<le> n" "n \<le> length ?t" "at_end (drop n k)"
    unfolding punctuation_and_numbers_regex_def list_ex_iff by auto
  from n(1,2) have "?t \<noteq> []" by auto
  then have ne: "k \<noteq> []" by auto
  have front: "\<forall>c \<in> set (take n k). ?P c"
  proof
    fix c assume "c \<in> set (take n k)"
    moreover have "take n k = take n (take (length ?t) k)"
      using n(2) by (simp add: min_def)
    moreover have "take (length ?t) k = ?t"
      by (rule takeWhile_eq_take [symmetric])
    ultimately have "c \<in> set (take n ?t)" by simp
    then have "c \<in> set ?t" by (rule in_set_takeD)
    then show "?P c" by (auto dest: set_takeWhileD)
  qed
  from n(3) have "drop n k = [] \<or> drop n k = [10]" by (simp add: at_end_def)
  moreover have "?P 10" by (simp add: punct_num_class_iff ascii_letter_def)
  ultimately have rest: "\<forall>c \<in> set (drop n k). ?P c" by auto
  have "set k = set (take n k) \<union> set (drop n k)"
    by (metis append_take_drop_id set_append)
  with front rest have "\<forall>c \<in> set k. ?P c" by blast
  with ne show ?thesis by simp
qed

lemma punctuation_and_numbers_regex_iff:
  "punctuation_and_numbers_regex U k
     \<longleftrightarrow> k \<noteq> [] \<and> (\<forall>c \<in> set k. if c < 128 then \<not> ascii_letter c else \<not> U c)"
proof
  assume "punctuation_and_numbers_regex U k"
  then have "k \<noteq> [] \<and> (\<forall>c \<in> set k. punct_num_class U c)"
    by (rule punctuation_and_numbers_regex_only)
  then show "k \<noteq> [] \<and> (\<forall>c \<in> set k. if c < 128 then \<not> ascii_letter c else \<not> U c)"
    unfolding punct_num_class_iff .
next
  assume r: "k \<noteq> [] \<and> (\<forall>c \<in> set k. if c < 128 then \<not> ascii_letter c else \<not> U c)"
  from r have "k \<noteq> []" by (rule conjunct1)
  moreover from r have "\<forall>c \<in> set k. if c < 128 then \<not> ascii_letter c else \<not> U c"
    by (rule conjunct2)
  then have "\<forall>c \<in> set k. punct_num_class U c"
    unfolding punct_num_class_iff .
  ultimately show "punctuation_and_numbers_regex U k"
    by (rule punctuation_and_numbers_regex_all)
qed






section \<open>Totals and the threshold\<close>

lemma counter_incr_pos:
  "\<forall>r \<in> set d. 0 < snd r \<Longrightarrow> \<forall>r \<in> set (counter_incr elem d). 0 < snd r"
proof (induction d)
  case Nil
  then show ?case by simp
next
  case (Cons p d)
  obtain k v where p: "p = (k, v)" by (cases p)
  from Cons.prems p have v: "0 < v" and rest: "\<forall>r \<in> set d. 0 < snd r" by simp_all
  from rest have ih: "\<forall>r \<in> set (counter_incr elem d). 0 < snd r" by (rule Cons.IH)
  show ?case
  proof (cases "k = elem")
    case True
    with p rest show ?thesis by simp
  next
    case False
    with p v ih show ?thesis by simp
  qed
qed

lemma counter_update_pos:
  "\<forall>r \<in> set d. 0 < snd r \<Longrightarrow> \<forall>r \<in> set (counter_update d ks). 0 < snd r"
proof (induction ks arbitrary: d)
  case Nil
  then show ?case by simp
next
  case (Cons k ks)
  from Cons.prems have "\<forall>r \<in> set (counter_incr k d). 0 < snd r" by (rule counter_incr_pos)
  then have "\<forall>r \<in> set (counter_update (counter_incr k d) ks). 0 < snd r" by (rule Cons.IH)
  then show ?case by simp
qed

lemma count_chunks_pos:
  "\<forall>r \<in> set d. 0 < snd r \<Longrightarrow> \<forall>r \<in> set (count_chunks f d chunks). 0 < snd r"
proof (induction chunks arbitrary: d)
  case Nil
  then show ?case by simp
next
  case (Cons c chunks)
  from Cons.prems have "\<forall>r \<in> set (counter_update d (f c)). 0 < snd r"
    by (rule counter_update_pos)
  then have "\<forall>r \<in> set (count_chunks f (counter_update d (f c)) chunks). 0 < snd r"
    by (rule Cons.IH)
  then show ?case by simp
qed

lemma filtered_words_pos:
  assumes "filtered_words cfg U tok parsedfile langcode = Inr d"
  shows "\<forall>r \<in> set d. 0 < snd r"
proof -
  from assms obtain chunks where
    d: "d = filter_words U langcode (pop [] (count_chunks (\<lambda>lines. tok lines langcode) [] chunks))"
    by (auto simp: filtered_words_def count_words_def split: sum.splits)
  have "\<forall>r \<in> set (count_chunks (\<lambda>lines. tok lines langcode) [] chunks). 0 < snd r"
    by (rule count_chunks_pos) simp
  then show ?thesis by (simp add: d filter_words_def pop_def)
qed

lemma remove_less_common_subset: "set (remove_less_common mc d) \<subseteq> set d"
  by (auto simp: remove_less_common_def split: option.splits if_splits)

lemma set_most_common: "set (most_common d) = set d"
  by (simp add: most_common_def)

lemma collapse_case_returns:
  assumes "\<forall>r \<in> set df. 0 < snd r"
  shows "\<exists>out. collapse_case lower df cutoff = Inr out"
proof (cases "cutoff = 1 / 2")
  case True
  then show ?thesis by (simp add: collapse_case_def)
next
  case False
  with assms have "\<exists>out. collapse_case lower df cutoff = Inr out \<and> conserves lower df out"
    by (rule collapse_case_cutoff)
  then show ?thesis by blast
qed

text \<open>What a counter holds after \<open>update\<close>: every key once, with the number of its occurrences.\<close>

lemma map_of_counter_incr:
  "map_of (counter_incr e d) k
     = (if k = e then Some (case map_of d e of None \<Rightarrow> 1 | Some v \<Rightarrow> v + 1) else map_of d k)"
  by (induction e d rule: counter_incr.induct) auto

lemma keys_counter_incr: "fst ` set (counter_incr e d) = insert e (fst ` set d)"
  by (induction e d rule: counter_incr.induct) auto

lemma distinct_counter_incr:
  "distinct (map fst d) \<Longrightarrow> distinct (map fst (counter_incr e d))"
proof (induction e d rule: counter_incr.induct)
  case (1 elem)
  then show ?case by simp
next
  case (2 elem k v d)
  show ?case
  proof (cases "k = elem")
    case True
    with 2 show ?thesis by simp
  next
    case False
    from 2(2) have "distinct (map fst d)" by simp
    with False have ih: "distinct (map fst (counter_incr elem d))" by (rule 2(1))
    from 2(2) have "k \<notin> fst ` set d" by simp
    with False have "k \<notin> fst ` set (counter_incr elem d)"
      by (simp add: keys_counter_incr)
    with ih False show ?thesis by simp
  qed
qed

lemma distinct_counter_update:
  "distinct (map fst d) \<Longrightarrow> distinct (map fst (counter_update d ks))"
  by (induction ks arbitrary: d) (simp_all add: distinct_counter_incr)

lemma map_of_counter_update:
  "map_of (counter_update d ks) k
     = (if count_list ks k = 0 then map_of d k
        else Some ((case map_of d k of None \<Rightarrow> 0 | Some v \<Rightarrow> v) + count_list ks k))"
proof (induction ks arbitrary: d)
  case Nil
  then show ?case by simp
next
  case (Cons e ks)
  show ?case
    by (simp add: Cons.IH map_of_counter_incr split: option.splits)
qed

lemma counter_update_member:
  "(k, v) \<in> set (counter_update [] ks) \<longleftrightarrow> 0 < v \<and> v = count_list ks k"
proof -
  have "distinct (map fst (counter_update [] ks))"
    by (rule distinct_counter_update) simp
  then have "(k, v) \<in> set (counter_update [] ks)
      \<longleftrightarrow> map_of (counter_update [] ks) k = Some v"
    by simp
  also have "\<dots> \<longleftrightarrow> 0 < v \<and> v = count_list ks k"
    by (auto simp: map_of_counter_update)
  finally show ?thesis .
qed

lemma sum_filter_counter_incr:
  "sum_list (map snd (filter (\<lambda>(k, v). P k) (counter_incr e d)))
     = sum_list (map snd (filter (\<lambda>(k, v). P k) d)) + (if P e then 1 else 0)"
  by (induction e d rule: counter_incr.induct) auto

lemma sum_filter_counter_update:
  "sum_list (map snd (filter (\<lambda>(k, v). P k) (counter_update d ks)))
     = sum_list (map snd (filter (\<lambda>(k, v). P k) d)) + length (filter P ks)"
  by (induction ks arbitrary: d) (simp_all add: sum_filter_counter_incr)

lemma remove_less_common_member:
  "(k, v) \<in> set (remove_less_common mc d)
     \<longleftrightarrow> (k, v) \<in> set d \<and> (\<forall>m. mc = Some m \<longrightarrow> m \<le> int v)"
  by (auto simp: remove_less_common_def split: option.splits)

lemma distinct_remove_less_common:
  "distinct (map fst d) \<Longrightarrow> distinct (map fst (remove_less_common mc d))"
  by (auto simp: remove_less_common_def distinct_map_filter split: option.splits)

text \<open>
  The table that leaves the noise filter, for a counter filled with \<open>keys\<close> and a pattern
  \<open>noise\<close>.
\<close>

lemma surviving_table:
  fixes noise :: "pystr \<Rightarrow> bool"
  defines "d \<equiv> \<lambda>keys. filter (\<lambda>(k, v). \<not> noise k) (pop [] (counter_update [] keys))"
  shows "distinct (map fst (d keys))"
    and "(k, v) \<in> set (d keys) \<longleftrightarrow> k \<noteq> [] \<and> \<not> noise k \<and> 0 < v \<and> v = count_list keys k"
    and "sum_list (map snd (d keys)) = length (filter (\<lambda>k. k \<noteq> [] \<and> \<not> noise k) keys)"
proof -
  have "distinct (map fst (counter_update [] keys))"
    by (rule distinct_counter_update) simp
  then show "distinct (map fst (d keys))"
    by (simp add: d_def pop_def distinct_map_filter)
  show "(k, v) \<in> set (d keys) \<longleftrightarrow> k \<noteq> [] \<and> \<not> noise k \<and> 0 < v \<and> v = count_list keys k"
    using counter_update_member [of k v keys] by (auto simp: d_def pop_def)
  have "d keys = filter (\<lambda>(k, v). k \<noteq> [] \<and> \<not> noise k) (counter_update [] keys)"
    by (simp add: d_def pop_def conj_commute case_prod_unfold)
  then show "sum_list (map snd (d keys)) = length (filter (\<lambda>k. k \<noteq> [] \<and> \<not> noise k) keys)"
    by (simp add: sum_filter_counter_update)
qed

lemma count_words_whole:
  assumes "0 \<le> n"
  shows "count_words tok n file langcode
     = Inr (pop [] (counter_update []
              (concat (map (\<lambda>lines. tok lines langcode) (batches file (nat n))))))"
  using assms by (simp add: count_words_def chunked_reader_def batched_def count_chunks_concat)

text \<open>
  C3. On a corpus with lines and for a positive chunk size, each pipeline returns and
  works on two tables. The first table \<open>d\<close> is what is left after the removal of the empty
  key and the noise filter: it has every key that is not empty and does not match the
  noise pattern once, with the number of its occurrences among the counted keys (the keys
  of the lines for sentences, the tokens of the chunks for words). The total written for
  the language into the summary table is the sum of the counts of \<open>d\<close>, which is the number
  of counted keys that are neither empty nor noise; \<open>min_count\<close> has no part in it. The
  second table \<open>t\<close> is what the threshold leaves: a row is in \<open>t\<close> exactly when it is in \<open>d\<close>
  and its count is at least the floor (every row of \<open>d\<close> when there is no floor), so the
  rows that go keep nothing and the rows that stay keep their counts. The ranked table
  that the run writes is computed from \<open>t\<close>.
\<close>

theorem total_before_threshold_of_run:
  assumes "parsedfile \<noteq> []" and "0 < lines_per_chunk cfg"
  shows "(\<exists>fs' d t.
          parsedfile_to_top_sentences cfg U parsedfile outfile langcode sdt fs = Inr fs'
          \<and> distinct (map fst d)
          \<and> (\<forall>k v. (k, v) \<in> set d \<longleftrightarrow>
                k \<noteq> [] \<and> \<not> sentence_pattern U langcode k \<and> 0 < v
                \<and> v = count_list (sentence_keys sdt parsedfile) k)
          \<and> total_counts_sentences_file fs' langcode = Some (sum_list (map snd d))
          \<and> sum_list (map snd d)
              = length (filter (\<lambda>k. k \<noteq> [] \<and> \<not> sentence_pattern U langcode k)
                          (sentence_keys sdt parsedfile))
          \<and> distinct (map fst t)
          \<and> (\<forall>k v. (k, v) \<in> set t \<longleftrightarrow>
                (k, v) \<in> set d \<and> (\<forall>m. min_count cfg = Some m \<longrightarrow> m \<le> int v))
          \<and> tables fs' outfile
              = Some (rank_sentences cfg langcode
                       (most_common (if sdt = Raw then strip_keys t else t))))
       \<and> (\<exists>fs' d t df.
          parsedfile_to_top_words cfg U lower tok parsedfile outfile langcode fs = Inr fs'
          \<and> distinct (map fst d)
          \<and> (\<forall>k v. (k, v) \<in> set d \<longleftrightarrow>
                k \<noteq> [] \<and> \<not> word_pattern U langcode k \<and> 0 < v
                \<and> v = count_list
                        (concat (map (\<lambda>lines. tok lines langcode)
                                   (batches parsedfile (nat (lines_per_chunk cfg))))) k)
          \<and> total_counts_words_file fs' langcode = Some (sum_list (map snd d))
          \<and> sum_list (map snd d)
              = length (filter (\<lambda>k. k \<noteq> [] \<and> \<not> word_pattern U langcode k)
                          (concat (map (\<lambda>lines. tok lines langcode)
                                     (batches parsedfile (nat (lines_per_chunk cfg))))))
          \<and> distinct (map fst t)
          \<and> (\<forall>k v. (k, v) \<in> set t \<longleftrightarrow>
                (k, v) \<in> set d \<and> (\<forall>m. min_count cfg = Some m \<longrightarrow> m \<le> int v))
          \<and> collapse_case lower (most_common t) (lowcase_cutoff cfg) = Inr df
          \<and> tables fs' outfile = Some (take (n_top_words cfg) df))"
proof (rule conjI)
  let ?keys = "sentence_keys sdt parsedfile"
  let ?noise = "sentence_pattern U langcode"
  define d where "d = filter (\<lambda>(k, v). \<not> ?noise k) (pop [] (counter_update [] ?keys))"
  define t where "t = remove_less_common (min_count cfg) d"
  define fs' where "fs' = to_csv outfile
      (rank_sentences cfg langcode (most_common (if sdt = Raw then strip_keys t else t)))
      (save_total_sentences langcode (sum_list (map snd d)) (makedirs ''bld/top_sentences'' fs))"
  have counted: "count_sentences sdt (lines_per_chunk cfg) parsedfile
      = Inr (pop [] (counter_update [] ?keys))"
    using assms(2) by (rule count_sentences_whole)
  have filtered: "filtered_sentences cfg U parsedfile langcode sdt = Inr d"
    by (simp add: filtered_sentences_def counted filter_sentences_def d_def)
  have run: "parsedfile_to_top_sentences cfg U parsedfile outfile langcode sdt fs = Inr fs'"
    using assms(1)
    by (simp add: parsedfile_to_top_sentences_def check_line_count_def Let_def filtered
          fs'_def t_def)
  have dist: "distinct (map fst d)"
    unfolding d_def by (rule surviving_table(1))
  have mem: "\<forall>k v. (k, v) \<in> set d \<longleftrightarrow>
      k \<noteq> [] \<and> \<not> ?noise k \<and> 0 < v \<and> v = count_list ?keys k"
    unfolding d_def by (intro allI) (rule surviving_table(2))
  have total: "sum_list (map snd d) = length (filter (\<lambda>k. k \<noteq> [] \<and> \<not> ?noise k) ?keys)"
    unfolding d_def by (rule surviving_table(3))
  have saved: "total_counts_sentences_file fs' langcode = Some (sum_list (map snd d))"
    by (simp add: fs'_def to_csv_def save_total_sentences_def)
  have dist_t: "distinct (map fst t)"
    unfolding t_def using dist by (rule distinct_remove_less_common)
  have mem_t: "\<forall>k v. (k, v) \<in> set t \<longleftrightarrow>
      (k, v) \<in> set d \<and> (\<forall>m. min_count cfg = Some m \<longrightarrow> m \<le> int v)"
    unfolding t_def by (intro allI) (rule remove_less_common_member)
  have written: "tables fs' outfile
      = Some (rank_sentences cfg langcode (most_common (if sdt = Raw then strip_keys t else t)))"
    by (simp add: fs'_def to_csv_def)
  from run dist mem saved total dist_t mem_t written
  show "\<exists>fs' d t.
          parsedfile_to_top_sentences cfg U parsedfile outfile langcode sdt fs = Inr fs'
          \<and> distinct (map fst d)
          \<and> (\<forall>k v. (k, v) \<in> set d \<longleftrightarrow>
                k \<noteq> [] \<and> \<not> ?noise k \<and> 0 < v \<and> v = count_list ?keys k)
          \<and> total_counts_sentences_file fs' langcode = Some (sum_list (map snd d))
          \<and> sum_list (map snd d) = length (filter (\<lambda>k. k \<noteq> [] \<and> \<not> ?noise k) ?keys)
          \<and> distinct (map fst t)
          \<and> (\<forall>k v. (k, v) \<in> set t \<longleftrightarrow>
                (k, v) \<in> set d \<and> (\<forall>m. min_count cfg = Some m \<longrightarrow> m \<le> int v))
          \<and> tables fs' outfile
              = Some (rank_sentences cfg langcode
                       (most_common (if sdt = Raw then strip_keys t else t)))"
    by (intro exI conjI)
next
  let ?keys = "concat (map (\<lambda>lines. tok lines langcode)
                         (batches parsedfile (nat (lines_per_chunk cfg))))"
  let ?noise = "word_pattern U langcode"
  define d where "d = filter (\<lambda>(k, v). \<not> ?noise k) (pop [] (counter_update [] ?keys))"
  define t where "t = remove_less_common (min_count cfg) d"
  from assms(2) have "0 \<le> lines_per_chunk cfg" by simp
  then have counted: "count_words tok (lines_per_chunk cfg) parsedfile langcode
      = Inr (pop [] (counter_update [] ?keys))"
    by (rule count_words_whole)
  have filtered: "filtered_words cfg U tok parsedfile langcode = Inr d"
    by (simp add: filtered_words_def counted filter_words_def d_def)
  then have "\<forall>r \<in> set d. 0 < snd r" by (rule filtered_words_pos)
  with remove_less_common_subset [of "min_count cfg" d]
  have "\<forall>r \<in> set (most_common t). 0 < snd r"
    unfolding set_most_common t_def by blast
  then obtain df where df: "collapse_case lower (most_common t) (lowcase_cutoff cfg) = Inr df"
    using collapse_case_returns by blast
  define fs' where "fs' = to_csv outfile (take (n_top_words cfg) df)
      (save_total_words langcode (sum_list (map snd d)) (makedirs ''bld/top_words'' fs))"
  have run: "parsedfile_to_top_words cfg U lower tok parsedfile outfile langcode fs = Inr fs'"
    using assms(1) df [unfolded t_def]
    by (simp add: parsedfile_to_top_words_def check_line_count_def Let_def filtered fs'_def)
  have dist: "distinct (map fst d)"
    unfolding d_def by (rule surviving_table(1))
  have mem: "\<forall>k v. (k, v) \<in> set d \<longleftrightarrow>
      k \<noteq> [] \<and> \<not> ?noise k \<and> 0 < v \<and> v = count_list ?keys k"
    unfolding d_def by (intro allI) (rule surviving_table(2))
  have total: "sum_list (map snd d) = length (filter (\<lambda>k. k \<noteq> [] \<and> \<not> ?noise k) ?keys)"
    unfolding d_def by (rule surviving_table(3))
  have saved: "total_counts_words_file fs' langcode = Some (sum_list (map snd d))"
    by (simp add: fs'_def to_csv_def save_total_words_def)
  have dist_t: "distinct (map fst t)"
    unfolding t_def using dist by (rule distinct_remove_less_common)
  have mem_t: "\<forall>k v. (k, v) \<in> set t \<longleftrightarrow>
      (k, v) \<in> set d \<and> (\<forall>m. min_count cfg = Some m \<longrightarrow> m \<le> int v)"
    unfolding t_def by (intro allI) (rule remove_less_common_member)
  have written: "tables fs' outfile = Some (take (n_top_words cfg) df)"
    by (simp add: fs'_def to_csv_def)
  from run dist mem saved total dist_t mem_t df written
  show "\<exists>fs' d t df.
          parsedfile_to_top_words cfg U lower tok parsedfile outfile langcode fs = Inr fs'
          \<and> distinct (map fst d)
          \<and> (\<forall>k v. (k, v) \<in> set d \<longleftrightarrow>
                k \<noteq> [] \<and> \<not> ?noise k \<and> 0 < v \<and> v = count_list ?keys k)
          \<and> total_counts_words_file fs' langcode = Some (sum_list (map snd d))
          \<and> sum_list (map snd d) = length (filter (\<lambda>k. k \<noteq> [] \<and> \<not> ?noise k) ?keys)
          \<and> distinct (map fst t)
          \<and> (\<forall>k v. (k, v) \<in> set t \<longleftrightarrow>
                (k, v) \<in> set d \<and> (\<forall>m. min_count cfg = Some m \<longrightarrow> m \<le> int v))
          \<and> collapse_case lower (most_common t) (lowcase_cutoff cfg) = Inr df
          \<and> tables fs' outfile = Some (take (n_top_words cfg) df)"
    by (intro exI conjI)
qed

theorem total_before_threshold_of_run_witness:
  "[py ''a'', py ''b'', py ''a'', py ''1'', py ''a''] \<noteq> []
   \<and> 0 < lines_per_chunk
        \<lparr>min_count = Some 2, lines_per_chunk = 2, lowcase_cutoff = 2 / 25, n_top_sentences = 10,
         n_top_words = 10, extra_sentences = (\<lambda>l. None)\<rparr>
   \<and> (\<exists>fs' t. parsedfile_to_top_sentences
               \<lparr>min_count = Some 2, lines_per_chunk = 2, lowcase_cutoff = 2 / 25,
                n_top_sentences = 10, n_top_words = 10, extra_sentences = (\<lambda>l. None)\<rparr>
               (\<lambda>c. False) [py ''a'', py ''b'', py ''a'', py ''1'', py ''a'']
               (sentence_outfile ''en'') ''en'' Text
               \<lparr>dirs = {}, tables = Map.empty, total_counts_sentences_file = Map.empty,
                total_counts_words_file = Map.empty\<rparr> = Inr fs'
           \<and> total_counts_sentences_file fs' ''en'' = Some 4
           \<and> (py ''a'', 3) \<in> set t \<and> (py ''b'', 1) \<notin> set t
           \<and> tables fs' (sentence_outfile ''en'')
               = Some (rank_sentences
                        \<lparr>min_count = Some 2, lines_per_chunk = 2, lowcase_cutoff = 2 / 25,
                         n_top_sentences = 10, n_top_words = 10,
                         extra_sentences = (\<lambda>l. None)\<rparr> ''en'' (most_common t)))
   \<and> (\<exists>fs' t df. parsedfile_to_top_words
               \<lparr>min_count = Some 2, lines_per_chunk = 2, lowcase_cutoff = 2 / 25,
                n_top_sentences = 10, n_top_words = 10, extra_sentences = (\<lambda>l. None)\<rparr>
               (\<lambda>c. False) ascii_lower (\<lambda>lines l. lines)
               [py ''a'', py ''b'', py ''a'', py ''1'', py ''a'']
               (word_outfile ''en'') ''en''
               \<lparr>dirs = {}, tables = Map.empty, total_counts_sentences_file = Map.empty,
                total_counts_words_file = Map.empty\<rparr> = Inr fs'
           \<and> total_counts_words_file fs' ''en'' = Some 4
           \<and> (py ''a'', 3) \<in> set t \<and> (py ''b'', 1) \<notin> set t
           \<and> collapse_case ascii_lower (most_common t) (2 / 25) = Inr df
           \<and> tables fs' (word_outfile ''en'') = Some (take 10 df))"
proof -
  let ?file = "[py ''a'', py ''b'', py ''a'', py ''1'', py ''a'']"
  let ?cfg = "\<lparr>min_count = Some 2, lines_per_chunk = 2, lowcase_cutoff = 2 / 25,
      n_top_sentences = 10, n_top_words = 10, extra_sentences = (\<lambda>l. None)\<rparr>"
  let ?fs = "\<lparr>dirs = {}, tables = Map.empty, total_counts_sentences_file = Map.empty,
      total_counts_words_file = Map.empty\<rparr>"
  let ?U = "\<lambda>c :: nat. False"
  let ?tok = "\<lambda>(lines :: pystr list) (l :: string). lines"
  have ne: "?file \<noteq> []" by simp
  have pos: "0 < lines_per_chunk ?cfg" by simp
  have floor: "min_count ?cfg = Some 2" by simp
  have keys: "sentence_keys Text ?file = ?file"
    by (simp add: sentence_keys_def strip_chars_def linestrip_pattern_def py_def)
  have tokens: "concat (map (\<lambda>lines. ?tok lines ''en'') (batches ?file (nat (lines_per_chunk ?cfg))))
      = ?file"
    by (simp add: concat_batches)
  have distinct_keys: "py ''a'' \<noteq> py ''b''" "py ''a'' \<noteq> py ''1''" "py ''b'' \<noteq> py ''1''"
    "py ''a'' \<noteq> []" "py ''b'' \<noteq> []" "py ''1'' \<noteq> []"
    by (simp_all add: py_def)
  have sa: "\<not> sentence_pattern ?U ''en'' (py ''a'')"
    and sb: "\<not> sentence_pattern ?U ''en'' (py ''b'')"
    and s1: "sentence_pattern ?U ''en'' (py ''1'')"
    by (simp_all add: py_def sentence_pattern_def punctuation_and_numbers_regex_iff
          parenthesis_start_regex_def colon_end_regex_def at_end_def non_latin_langs_def
          ascii_letter_def)
  have wa: "\<not> word_pattern ?U ''en'' (py ''a'')"
    and wb: "\<not> word_pattern ?U ''en'' (py ''b'')"
    and w1: "word_pattern ?U ''en'' (py ''1'')"
    by (simp_all add: py_def word_pattern_def punctuation_and_numbers_regex_iff
          non_latin_langs_def ascii_letter_def)
  have n_s: "length (filter (\<lambda>k. k \<noteq> [] \<and> \<not> sentence_pattern ?U ''en'' k) ?file) = 4"
    using distinct_keys sa sb s1 by simp
  have n_w: "length (filter (\<lambda>k. k \<noteq> [] \<and> \<not> word_pattern ?U ''en'' k) ?file) = 4"
    using distinct_keys wa wb w1 by simp
  have ca: "count_list ?file (py ''a'') = 3" and cb: "count_list ?file (py ''b'') = 1"
    using distinct_keys by simp_all
  have both: "(\<exists>fs' d t.
          parsedfile_to_top_sentences ?cfg ?U ?file out ''en'' Text ?fs = Inr fs'
          \<and> distinct (map fst d)
          \<and> (\<forall>k v. (k, v) \<in> set d \<longleftrightarrow>
                k \<noteq> [] \<and> \<not> sentence_pattern ?U ''en'' k \<and> 0 < v
                \<and> v = count_list ?file k)
          \<and> total_counts_sentences_file fs' ''en'' = Some (sum_list (map snd d))
          \<and> sum_list (map snd d) = 4
          \<and> distinct (map fst t)
          \<and> (\<forall>k v. (k, v) \<in> set t \<longleftrightarrow> (k, v) \<in> set d \<and> 2 \<le> int v)
          \<and> tables fs' out
              = Some (rank_sentences ?cfg ''en'' (most_common t)))
       \<and> (\<exists>fs' d t df.
          parsedfile_to_top_words ?cfg ?U ascii_lower ?tok ?file out ''en'' ?fs = Inr fs'
          \<and> distinct (map fst d)
          \<and> (\<forall>k v. (k, v) \<in> set d \<longleftrightarrow>
                k \<noteq> [] \<and> \<not> word_pattern ?U ''en'' k \<and> 0 < v
                \<and> v = count_list ?file k)
          \<and> total_counts_words_file fs' ''en'' = Some (sum_list (map snd d))
          \<and> sum_list (map snd d) = 4
          \<and> distinct (map fst t)
          \<and> (\<forall>k v. (k, v) \<in> set t \<longleftrightarrow> (k, v) \<in> set d \<and> 2 \<le> int v)
          \<and> collapse_case ascii_lower (most_common t) (2 / 25) = Inr df
          \<and> tables fs' out = Some (take 10 df))"
    for out
    using total_before_threshold_of_run [where parsedfile = ?file and cfg = ?cfg and U = ?U
        and outfile = out and langcode = "''en''" and sdt = Text and fs = ?fs
        and lower = ascii_lower and tok = ?tok] ne pos
    unfolding keys tokens n_s n_w by simp
  from both [of "sentence_outfile ''en''"] have "\<exists>fs' d t.
          parsedfile_to_top_sentences ?cfg ?U ?file (sentence_outfile ''en'') ''en'' Text ?fs = Inr fs'
          \<and> distinct (map fst d)
          \<and> (\<forall>k v. (k, v) \<in> set d \<longleftrightarrow>
                k \<noteq> [] \<and> \<not> sentence_pattern ?U ''en'' k \<and> 0 < v
                \<and> v = count_list ?file k)
          \<and> total_counts_sentences_file fs' ''en'' = Some (sum_list (map snd d))
          \<and> sum_list (map snd d) = 4
          \<and> distinct (map fst t)
          \<and> (\<forall>k v. (k, v) \<in> set t \<longleftrightarrow> (k, v) \<in> set d \<and> 2 \<le> int v)
          \<and> tables fs' (sentence_outfile ''en'')
              = Some (rank_sentences ?cfg ''en'' (most_common t))"
    by (rule conjunct1)
  then obtain fs1 d1 t1 where
    r1: "parsedfile_to_top_sentences ?cfg ?U ?file (sentence_outfile ''en'') ''en'' Text ?fs = Inr fs1"
    and m1: "\<forall>k v. (k, v) \<in> set d1 \<longleftrightarrow>
                k \<noteq> [] \<and> \<not> sentence_pattern ?U ''en'' k \<and> 0 < v \<and> v = count_list ?file k"
    and tot1: "total_counts_sentences_file fs1 ''en'' = Some (sum_list (map snd d1))"
    and sum1: "sum_list (map snd d1) = 4"
    and mt1: "\<forall>k v. (k, v) \<in> set t1 \<longleftrightarrow> (k, v) \<in> set d1 \<and> 2 \<le> int v"
    and w1: "tables fs1 (sentence_outfile ''en'') = Some (rank_sentences ?cfg ''en'' (most_common t1))"
    by (elim exE conjE)
  from both [of "word_outfile ''en''"] have "\<exists>fs' d t df.
          parsedfile_to_top_words ?cfg ?U ascii_lower ?tok ?file (word_outfile ''en'') ''en'' ?fs = Inr fs'
          \<and> distinct (map fst d)
          \<and> (\<forall>k v. (k, v) \<in> set d \<longleftrightarrow>
                k \<noteq> [] \<and> \<not> word_pattern ?U ''en'' k \<and> 0 < v
                \<and> v = count_list ?file k)
          \<and> total_counts_words_file fs' ''en'' = Some (sum_list (map snd d))
          \<and> sum_list (map snd d) = 4
          \<and> distinct (map fst t)
          \<and> (\<forall>k v. (k, v) \<in> set t \<longleftrightarrow> (k, v) \<in> set d \<and> 2 \<le> int v)
          \<and> collapse_case ascii_lower (most_common t) (2 / 25) = Inr df
          \<and> tables fs' (word_outfile ''en'') = Some (take 10 df)"
    by (rule conjunct2)
  then obtain fs2 d2 t2 df2 where
    r2: "parsedfile_to_top_words ?cfg ?U ascii_lower ?tok ?file (word_outfile ''en'') ''en'' ?fs = Inr fs2"
    and m2: "\<forall>k v. (k, v) \<in> set d2 \<longleftrightarrow>
                k \<noteq> [] \<and> \<not> word_pattern ?U ''en'' k \<and> 0 < v \<and> v = count_list ?file k"
    and tot2: "total_counts_words_file fs2 ''en'' = Some (sum_list (map snd d2))"
    and sum2: "sum_list (map snd d2) = 4"
    and mt2: "\<forall>k v. (k, v) \<in> set t2 \<longleftrightarrow> (k, v) \<in> set d2 \<and> 2 \<le> int v"
    and c2: "collapse_case ascii_lower (most_common t2) (2 / 25) = Inr df2"
    and w2: "tables fs2 (word_outfile ''en'') = Some (take 10 df2)"
    by (elim exE conjE)
  from m1 sa sb distinct_keys(4,5) ca cb have "(py ''a'', 3) \<in> set d1" "(py ''b'', 1) \<in> set d1"
    by simp_all
  with mt1 have in1: "(py ''a'', 3) \<in> set t1" and out1: "(py ''b'', 1) \<notin> set t1" by simp_all
  from m2 wa wb distinct_keys(4,5) ca cb have "(py ''a'', 3) \<in> set d2" "(py ''b'', 1) \<in> set d2"
    by simp_all
  with mt2 have in2: "(py ''a'', 3) \<in> set t2" and out2: "(py ''b'', 1) \<notin> set t2" by simp_all
  from tot1 sum1 have four1: "total_counts_sentences_file fs1 ''en'' = Some 4" by simp
  from tot2 sum2 have four2: "total_counts_words_file fs2 ''en'' = Some 4" by simp
  from r1 four1 in1 out1 w1 have first: "\<exists>fs' t.
      parsedfile_to_top_sentences ?cfg ?U ?file (sentence_outfile ''en'') ''en'' Text ?fs = Inr fs'
      \<and> total_counts_sentences_file fs' ''en'' = Some 4
      \<and> (py ''a'', 3) \<in> set t \<and> (py ''b'', 1) \<notin> set t
      \<and> tables fs' (sentence_outfile ''en'') = Some (rank_sentences ?cfg ''en'' (most_common t))"
    by (intro exI conjI)
  from r2 four2 in2 out2 c2 w2 have second: "\<exists>fs' t df.
      parsedfile_to_top_words ?cfg ?U ascii_lower ?tok ?file (word_outfile ''en'') ''en'' ?fs = Inr fs'
      \<and> total_counts_words_file fs' ''en'' = Some 4
      \<and> (py ''a'', 3) \<in> set t \<and> (py ''b'', 1) \<notin> set t
      \<and> collapse_case ascii_lower (most_common t) (2 / 25) = Inr df
      \<and> tables fs' (word_outfile ''en'') = Some (take 10 df)"
    by (intro exI conjI)
  from ne pos first second show ?thesis by (intro conjI)
qed


end
